theory Spec2Isabelle
  imports Main
begin

section \<open>Data model (models.py)\<close>

datatype Side = BUY | SELL

datatype OrderType = LIMIT | MARKET

datatype OrderStatus = NEW | RESTING | PARTIAL | FILLED | CANCELED | REJECTED

text \<open>
  The exceptions the modelled code can raise. \<open>RecursionError\<close> is the interpreter's:
  it is raised by a call that would push a frame beyond the recursion limit.
\<close>

datatype error = ValueError | TypeError | KeyError | RecursionError

text \<open>
  The dataclass \<open>Order\<close>. Python integers are unbounded, hence \<open>int\<close>;
  \<open>Optional[int]\<close> is \<open>int option\<close>.
\<close>

record Order =
  user_id :: string
  symbol :: string
  side :: Side
  type :: OrderType
  qty :: int
  price_cents :: "int option"
  client_order_id :: "string option"
  order_id :: string
  created_ms :: int
  remaining_qty :: int
  status :: OrderStatus
  active :: bool

text \<open>
  \<open>Order.__post_init__\<close>: the validation run by the constructor, which then sets
  \<open>remaining_qty\<close> to \<open>qty\<close>.
\<close>

definition post_init :: "Order \<Rightarrow> error + Order" where
  "post_init ord =
     (if qty ord \<le> 0 then Inl ValueError
      else if type ord = LIMIT then
        (case price_cents ord of
           None \<Rightarrow> Inl ValueError
         | Some p \<Rightarrow> if p \<le> 0 then Inl ValueError else Inr (ord\<lparr>remaining_qty := qty ord\<rparr>))
      else if price_cents ord \<noteq> None then Inl ValueError
      else Inr (ord\<lparr>remaining_qty := qty ord\<rparr>))"

text \<open>
  The frozen dataclass \<open>Trade\<close>. Its fields carry the prefix \<open>trade_\<close> where the
  name is also a field of \<open>Order\<close>. The price is whatever the maker's
  \<open>price_cents\<close> holds (the source assigns it under \<open>type: ignore\<close>), hence optional.
\<close>

record Trade =
  trade_id :: string
  trade_symbol :: string
  trade_price_cents :: "int option"
  trade_qty :: int
  maker_order_id :: string
  taker_order_id :: string
  ts_ms :: int

section \<open>Object store\<close>

text \<open>
  Orders are mutable objects shared between the caller, the book's \<open>orders\<close>
  dictionary and the matcher, so the model keeps them in a store: a reference is a
  natural number and the heap maps every reference to the current value of its object.
\<close>

type_synonym ref = nat

type_synonym heap = "ref \<Rightarrow> Order"

section \<open>Call stack\<close>

text \<open>
  The interpreter bounds the depth of the call stack, and \<open>get_best_resting\<close> calls
  itself once per price level it finds stale. Every function of the repository that calls
  another one takes, as its first argument, the number of frames that can still be pushed
  while its body runs: a call of a function of the repository needs one free frame and
  leaves one less to the body it enters; with none free the call raises
  \<open>RecursionError\<close>, and what was mutated before the raise stays mutated, so an error
  carries the state it leaves. Calls into the library (\<open>bisect\<close>, \<open>deque\<close>,
  \<open>dict\<close>, \<open>min\<close>, \<open>uuid\<close>, \<open>time\<close>) push no frame. \<open>match_order\<close> calls
  \<open>new_id\<close>, \<open>now_ms\<close> and the \<open>Trade\<close> constructor only after
  \<open>get_best_resting\<close> has returned an order, which takes two free frames in the body
  of \<open>match_order\<close>; each of the three needs one, so these calls do not raise.
\<close>

section \<open>Order book (orderbook.py)\<close>

text \<open>
  \<open>OrderBook\<close>: \<open>orders\<close> maps an order id to the order object, \<open>bids\<close> and
  \<open>asks\<close> map a price to its deque of order ids (head first), \<open>bid_prices\<close> and
  \<open>ask_prices\<close> are the ascending price lists.
\<close>

record OrderBook =
  book_symbol :: string
  orders :: "string \<rightharpoonup> ref"
  bids :: "int \<rightharpoonup> string list"
  asks :: "int \<rightharpoonup> string list"
  bid_prices :: "int list"
  ask_prices :: "int list"

definition OrderBook_init :: "string \<Rightarrow> OrderBook" where
  "OrderBook_init sname =
     \<lparr>book_symbol = sname, orders = Map.empty, bids = Map.empty, asks = Map.empty,
      bid_prices = [], ask_prices = []\<rparr>"

subsection \<open>The library's bisect module\<close>

text \<open>
  \<open>bisect.bisect_left\<close> and \<open>bisect.bisect_right\<close> are binary searches over the
  whole list; \<open>bisect.insort\<close> inserts at the index \<open>bisect_right\<close> finds.
\<close>

function bisect_left_loop :: "int list \<Rightarrow> int \<Rightarrow> nat \<Rightarrow> nat \<Rightarrow> nat" where
  "bisect_left_loop a x lo hi =
     (if lo < hi then
        (if a ! ((lo + hi) div 2) < x then bisect_left_loop a x ((lo + hi) div 2 + 1) hi
         else bisect_left_loop a x lo ((lo + hi) div 2))
      else lo)"
  by pat_completeness auto
termination
  by (relation "measure (\<lambda>(a, x, lo, hi). hi - lo)") auto

definition bisect_left :: "int list \<Rightarrow> int \<Rightarrow> nat" where
  "bisect_left a x = bisect_left_loop a x 0 (length a)"

function bisect_right_loop :: "int list \<Rightarrow> int \<Rightarrow> nat \<Rightarrow> nat \<Rightarrow> nat" where
  "bisect_right_loop a x lo hi =
     (if lo < hi then
        (if x < a ! ((lo + hi) div 2) then bisect_right_loop a x lo ((lo + hi) div 2)
         else bisect_right_loop a x ((lo + hi) div 2 + 1) hi)
      else lo)"
  by pat_completeness auto
termination
  by (relation "measure (\<lambda>(a, x, lo, hi). hi - lo)") auto

definition bisect_right :: "int list \<Rightarrow> int \<Rightarrow> nat" where
  "bisect_right a x = bisect_right_loop a x 0 (length a)"

definition insort_py :: "int list \<Rightarrow> int \<Rightarrow> int list" where
  "insort_py a x = take (bisect_right a x) a @ x # drop (bisect_right a x) a"

text \<open>\<open>list.pop(i)\<close> for an index in range.\<close>

definition list_pop :: "int list \<Rightarrow> nat \<Rightarrow> int list" where
  "list_pop a i = take i a @ drop (Suc i) a"

subsection \<open>Internal helpers\<close>

definition ensure_price_level :: "Side \<Rightarrow> int \<Rightarrow> OrderBook \<Rightarrow> OrderBook" where
  "ensure_price_level sd p b =
     (if sd = BUY then
        (if bids b p = None
         then b\<lparr>bids := (bids b)(p \<mapsto> []), bid_prices := insort_py (bid_prices b) p\<rparr>
         else b)
      else
        (if asks b p = None
         then b\<lparr>asks := (asks b)(p \<mapsto> []), ask_prices := insort_py (ask_prices b) p\<rparr>
         else b))"

definition cleanup_level_if_empty :: "Side \<Rightarrow> int \<Rightarrow> OrderBook \<Rightarrow> OrderBook" where
  "cleanup_level_if_empty sd p b =
     (if sd = BUY then
        (if bids b p = Some [] then
           (if bisect_left (bid_prices b) p < length (bid_prices b)
               \<and> bid_prices b ! bisect_left (bid_prices b) p = p
            then b\<lparr>bids := (bids b)(p := None),
                   bid_prices := list_pop (bid_prices b) (bisect_left (bid_prices b) p)\<rparr>
            else b\<lparr>bids := (bids b)(p := None)\<rparr>)
         else b)
      else
        (if asks b p = Some [] then
           (if bisect_left (ask_prices b) p < length (ask_prices b)
               \<and> ask_prices b ! bisect_left (ask_prices b) p = p
            then b\<lparr>asks := (asks b)(p := None),
                   ask_prices := list_pop (ask_prices b) (bisect_left (ask_prices b) p)\<rparr>
            else b\<lparr>asks := (asks b)(p := None)\<rparr>)
         else b))"

text \<open>
  The test \<open>o and o.active and o.remaining_qty > 0\<close> on the order an id resolves to.
\<close>

definition eligible :: "heap \<Rightarrow> OrderBook \<Rightarrow> string \<Rightarrow> bool" where
  "eligible h b oid =
     (case orders b oid of
        None \<Rightarrow> False
      | Some r \<Rightarrow> active (h r) \<and> remaining_qty (h r) > 0)"

text \<open>
  The \<open>while q\<close> loop of \<open>_pop_next_active_at_price\<close>: entries are popped from the
  left until the head is eligible or the deque is empty; the result is the deque left.
\<close>

fun drop_inactive :: "heap \<Rightarrow> OrderBook \<Rightarrow> string list \<Rightarrow> string list" where
  "drop_inactive h b [] = []"
| "drop_inactive h b (oid # q) =
     (if eligible h b oid then oid # q else drop_inactive h b q)"

definition levels :: "Side \<Rightarrow> OrderBook \<Rightarrow> (int \<rightharpoonup> string list)" where
  "levels sd b = (if sd = BUY then bids b else asks b)"

definition set_level :: "Side \<Rightarrow> int \<Rightarrow> string list \<Rightarrow> OrderBook \<Rightarrow> OrderBook" where
  "set_level sd p q b =
     (if sd = BUY then b\<lparr>bids := (bids b)(p \<mapsto> q)\<rparr> else b\<lparr>asks := (asks b)(p \<mapsto> q)\<rparr>)"

text \<open>
  \<open>_pop_next_active_at_price\<close>, with \<open>n\<close> frames free in its body. It returns the
  order found (its reference) or \<open>None\<close>, and the book with the deque as the loop left
  it. Its one call is \<open>_cleanup_level_if_empty\<close>, once the loop has emptied the deque:
  with no frame free that call raises, and the emptied deque stays in the book, its price
  still listed.
\<close>

definition pop_next_active_at_price ::
  "nat \<Rightarrow> Side \<Rightarrow> int \<Rightarrow> heap \<Rightarrow> OrderBook
     \<Rightarrow> (error \<times> OrderBook) + (ref option \<times> OrderBook)" where
  "pop_next_active_at_price n sd p h b =
     (case levels sd b p of
        None \<Rightarrow> Inr (None, b)
      | Some q \<Rightarrow>
          if q = [] then Inr (None, b)
          else
            (case drop_inactive h b q of
               [] \<Rightarrow>
                 if n = 0 then Inl (RecursionError, set_level sd p [] b)
                 else Inr (None, cleanup_level_if_empty sd p (set_level sd p [] b))
             | oid # q' \<Rightarrow> Inr (orders b oid, set_level sd p (oid # q') b)))"

subsection \<open>Public book operations\<close>

text \<open>
  \<open>add_resting_limit\<close>, with \<open>n\<close> frames free in its body. Its one call is
  \<open>_ensure_price_level\<close>, made after the order is stored in \<open>orders\<close>.
\<close>

definition add_resting_limit ::
  "nat \<Rightarrow> ref \<Rightarrow> heap \<Rightarrow> OrderBook
     \<Rightarrow> (error \<times> heap \<times> OrderBook) + (heap \<times> OrderBook)" where
  "add_resting_limit n r h b =
     (if symbol (h r) \<noteq> book_symbol b then Inl (ValueError, h, b)
      else
        (case price_cents (h r) of
           None \<Rightarrow> Inl (ValueError, h, b)
         | Some p \<Rightarrow>
             if n = 0
             then Inl (RecursionError, h, b\<lparr>orders := (orders b)(order_id (h r) \<mapsto> r)\<rparr>)
             else
               (case levels (side (h r))
                       (ensure_price_level (side (h r)) p
                          (b\<lparr>orders := (orders b)(order_id (h r) \<mapsto> r)\<rparr>)) p of
                  None \<Rightarrow>
                    Inl (KeyError, h,
                         ensure_price_level (side (h r)) p
                           (b\<lparr>orders := (orders b)(order_id (h r) \<mapsto> r)\<rparr>))
                | Some q \<Rightarrow>
                    Inr (h(r := (h r)\<lparr>status := RESTING\<rparr>),
                         set_level (side (h r)) p (q @ [order_id (h r)])
                           (ensure_price_level (side (h r)) p
                              (b\<lparr>orders := (orders b)(order_id (h r) \<mapsto> r)\<rparr>))))))"

definition best_bid :: "OrderBook \<Rightarrow> int option" where
  "best_bid b = (if bid_prices b = [] then None else Some (last (bid_prices b)))"

definition best_ask :: "OrderBook \<Rightarrow> int option" where
  "best_ask b = (if ask_prices b = [] then None else Some (hd (ask_prices b)))"

definition best_price :: "Side \<Rightarrow> OrderBook \<Rightarrow> int option" where
  "best_price sd b = (if sd = BUY then best_bid b else best_ask b)"

text \<open>
  \<open>get_best_resting\<close>, with the number of frames free in its body. Its calls are
  \<open>best_bid\<close> or \<open>best_ask\<close>, \<open>_pop_next_active_at_price\<close> and itself: with no
  frame free the first of them raises; otherwise the lookup runs with one frame less and,
  if it finds nothing, \<open>get_best_resting\<close> calls itself, again with one frame less, on the
  book the lookup left.
\<close>

fun get_best_resting ::
  "nat \<Rightarrow> Side \<Rightarrow> heap \<Rightarrow> OrderBook \<Rightarrow> (error \<times> OrderBook) + (ref option \<times> OrderBook)" where
  "get_best_resting 0 sd h b = Inl (RecursionError, b)"
| "get_best_resting (Suc n) sd h b =
     (case best_price sd b of
        None \<Rightarrow> Inr (None, b)
      | Some p \<Rightarrow>
          (case pop_next_active_at_price n sd p h b of
             Inl x \<Rightarrow> Inl x
           | Inr res \<Rightarrow>
               (case fst res of
                  Some r \<Rightarrow> Inr (Some r, snd res)
                | None \<Rightarrow> get_best_resting n sd h (snd res))))"

definition cancel :: "string \<Rightarrow> heap \<Rightarrow> OrderBook \<Rightarrow> bool \<times> heap \<times> OrderBook" where
  "cancel oid h b =
     (case orders b oid of
        None \<Rightarrow> (False, h, b)
      | Some r \<Rightarrow>
          if \<not> active (h r) \<or> remaining_qty (h r) = 0 then (False, h, b)
          else (True, h(r := (h r)\<lparr>remaining_qty := 0, status := CANCELED, active := False\<rparr>), b))"

text \<open>Python slices \<open>a[s:]\<close> and \<open>a[:e]\<close> for any integer bound.\<close>

definition slice_from :: "int list \<Rightarrow> int \<Rightarrow> int list" where
  "slice_from a s = (if s < 0 then drop (nat (int (length a) + s)) a else drop (nat s) a)"

definition slice_to :: "int list \<Rightarrow> int \<Rightarrow> int list" where
  "slice_to a e = (if e < 0 then take (nat (int (length a) + e)) a else take (nat e) a)"

text \<open>The inner loop of \<open>snapshot_l2\<close>, with its running total.\<close>

fun level_total :: "heap \<Rightarrow> OrderBook \<Rightarrow> string list \<Rightarrow> int \<Rightarrow> int" where
  "level_total h b [] tot = tot"
| "level_total h b (oid # q) tot =
     level_total h b q
       (case orders b oid of
          None \<Rightarrow> tot
        | Some r \<Rightarrow>
            if active (h r) \<and> remaining_qty (h r) > 0 then tot + remaining_qty (h r) else tot)"

definition queue_at :: "(int \<rightharpoonup> string list) \<Rightarrow> int \<Rightarrow> string list" where
  "queue_at lv p = (case lv p of None \<Rightarrow> [] | Some q \<Rightarrow> q)"

record Snapshot =
  bids_out :: "(int \<times> int) list"
  asks_out :: "(int \<times> int) list"

definition snapshot_l2 :: "int \<Rightarrow> heap \<Rightarrow> OrderBook \<Rightarrow> Snapshot" where
  "snapshot_l2 depth h b =
     \<lparr>bids_out =
        map (\<lambda>price. (price, level_total h b (queue_at (bids b) price) 0))
          (rev (slice_from (bid_prices b) (- depth))),
      asks_out =
        map (\<lambda>price. (price, level_total h b (queue_at (asks b) price) 0))
          (slice_to (ask_prices b) depth)\<rparr>"

section \<open>Matching engine (matcher.py)\<close>

definition reject :: "ref \<Rightarrow> heap \<Rightarrow> heap" where
  "reject t h = h(t := (h t)\<lparr>status := REJECTED, active := False\<rparr>)"

definition opp_side :: "Side \<Rightarrow> Side" where
  "opp_side sd = (if sd = BUY then SELL else BUY)"

text \<open>
  The crossing test at the top of the loop body: \<open>Inr False\<close> is \<open>break\<close>,
  \<open>Inr True\<close> goes on, and comparing a missing price with an integer raises.
\<close>

definition crosses :: "Order \<Rightarrow> OrderBook \<Rightarrow> error + bool" where
  "crosses tk b =
     (if side tk = BUY then
        (case best_ask b of
           None \<Rightarrow> Inr False
         | Some a \<Rightarrow>
             (case price_cents tk of
                None \<Rightarrow> Inl TypeError
              | Some p \<Rightarrow> if p < a then Inr False else Inr True))
      else
        (case best_bid b of
           None \<Rightarrow> Inr False
         | Some bb \<Rightarrow>
             (case price_cents tk of
                None \<Rightarrow> Inl TypeError
              | Some p \<Rightarrow> if p > bb then Inr False else Inr True)))"

text \<open>
  The two decrements, in the source's order on the shared store (the taker and the maker
  may be one object).
\<close>

definition decrement :: "ref \<Rightarrow> int \<Rightarrow> heap \<Rightarrow> heap" where
  "decrement r n h = h(r := (h r)\<lparr>remaining_qty := remaining_qty (h r) - n\<rparr>)"

definition update_status :: "ref \<Rightarrow> heap \<Rightarrow> heap" where
  "update_status r h =
     (if remaining_qty (h r) = 0 then h(r := (h r)\<lparr>status := FILLED, active := False\<rparr>)
      else h(r := (h r)\<lparr>status := PARTIAL\<rparr>))"

definition trade_quantity :: "ref \<Rightarrow> ref \<Rightarrow> heap \<Rightarrow> int" where
  "trade_quantity t m h = min (remaining_qty (h t)) (remaining_qty (h m))"

text \<open>
  \<open>new_id()\<close> and \<open>now_ms()\<close> read the environment; the model takes their values from
  a parameter \<open>gen\<close>, indexed by the number of trades made so far in the call.
\<close>

definition make_trade ::
  "(nat \<Rightarrow> string \<times> int) \<Rightarrow> nat \<Rightarrow> ref \<Rightarrow> ref \<Rightarrow> heap \<Rightarrow> OrderBook \<Rightarrow> Trade" where
  "make_trade gen k t m h b =
     \<lparr>trade_id = fst (gen k), trade_symbol = book_symbol b,
      trade_price_cents = price_cents (h m), trade_qty = trade_quantity t m h,
      maker_order_id = order_id (h m), taker_order_id = order_id (h t),
      ts_ms = snd (gen k)\<rparr>"

definition fill :: "ref \<Rightarrow> ref \<Rightarrow> heap \<Rightarrow> heap" where
  "fill t m h =
     update_status t
       (update_status m
          (decrement m (trade_quantity t m h) (decrement t (trade_quantity t m h) h)))"

text \<open>
  The \<open>while\<close> loop of \<open>match_order\<close>, with \<open>n\<close> frames free in the body of
  \<open>match_order\<close>. A pass calls \<open>best_bid\<close> and \<open>best_ask\<close>, then
  \<open>get_best_resting\<close>. A result is the trades so far, the store and the book; an error
  carries the store and the book it leaves. The loop has no bound of its own, so not
  returning is the value \<open>None\<close>.
\<close>

partial_function (option) match_loop ::
  "nat \<Rightarrow> (nat \<Rightarrow> string \<times> int) \<Rightarrow> ref \<Rightarrow> heap \<Rightarrow> OrderBook \<Rightarrow> Trade list
     \<Rightarrow> ((error \<times> heap \<times> OrderBook) + (Trade list \<times> heap \<times> OrderBook)) option" where
  "match_loop n gen t h b trades =
     (if remaining_qty (h t) > 0 then
        (if n = 0 then Some (Inl (RecursionError, h, b))
         else
           (case crosses (h t) b of
              Inl e \<Rightarrow> Some (Inl (e, h, b))
            | Inr c \<Rightarrow>
                if \<not> c then Some (Inr (trades, h, b))
                else
                  (case get_best_resting (n - 1) (opp_side (side (h t))) h b of
                     Inl x \<Rightarrow> Some (Inl (fst x, h, snd x))
                   | Inr res \<Rightarrow>
                       (case fst res of
                          None \<Rightarrow> Some (Inr (trades, h, snd res))
                        | Some m \<Rightarrow>
                            match_loop n gen t (fill t m h) (snd res)
                              (trades @ [make_trade gen (length trades) t m h b])))))
      else Some (Inr (trades, h, b)))"

text \<open>
  \<open>match_order\<close>, with \<open>n\<close> frames free in its body. After the loop it calls
  \<open>add_resting_limit\<close> if the taker has quantity left.
\<close>

definition match_order ::
  "nat \<Rightarrow> (nat \<Rightarrow> string \<times> int) \<Rightarrow> ref \<Rightarrow> heap \<Rightarrow> OrderBook
     \<Rightarrow> ((error \<times> heap \<times> OrderBook) + (Trade list \<times> heap \<times> OrderBook)) option" where
  "match_order n gen t h b =
     (if symbol (h t) \<noteq> book_symbol b then Some (Inr ([], reject t h, b))
      else if type (h t) \<noteq> LIMIT then Some (Inr ([], reject t h, b))
      else
        Option.bind (match_loop n gen t h b [])
          (\<lambda>res.
             case res of
               Inl x \<Rightarrow> Some (Inl x)
             | Inr (trades, h1, b1) \<Rightarrow>
                 if remaining_qty (h1 t) > 0 then
                   (if n = 0 then Some (Inl (RecursionError, h1, b1))
                    else
                      (case add_resting_limit (n - 1) t h1 b1 of
                         Inl x \<Rightarrow> Some (Inl x)
                       | Inr (h2, b2) \<Rightarrow> Some (Inr (trades, h2, b2))))
                 else Some (Inr (trades, h1, b1))))"

section \<open>Callers\<close>

text \<open>
  A caller (the demo, the tests) applies a sequence of the public operations to one
  book. Each call is made with some number of frames free in the body it enters; a call
  that raises leaves the store and the book its error carries.
\<close>

datatype command = Submit nat ref | Cancel string | BestResting nat Side | AddResting nat ref

fun exec ::
  "(nat \<Rightarrow> string \<times> int) \<Rightarrow> command \<Rightarrow> heap \<times> OrderBook \<Rightarrow> (heap \<times> OrderBook) option" where
  "exec gen (Submit n t) (h, b) =
     (case match_order n gen t h b of
        None \<Rightarrow> None
      | Some (Inl (e, h', b')) \<Rightarrow> Some (h', b')
      | Some (Inr (trades, h', b')) \<Rightarrow> Some (h', b'))"
| "exec gen (Cancel oid) (h, b) = Some (snd (cancel oid h b))"
| "exec gen (BestResting n sd) (h, b) =
     (case get_best_resting n sd h b of
        Inl (e, b') \<Rightarrow> Some (h, b')
      | Inr (found, b') \<Rightarrow> Some (h, b'))"
| "exec gen (AddResting n r) (h, b) =
     (case add_resting_limit n r h b of
        Inl (e, h', b') \<Rightarrow> Some (h', b')
      | Inr (h', b') \<Rightarrow> Some (h', b'))"

fun run ::
  "(nat \<Rightarrow> string \<times> int) \<Rightarrow> command list \<Rightarrow> heap \<times> OrderBook \<Rightarrow> (heap \<times> OrderBook) option" where
  "run gen [] s = Some s"
| "run gen (c # cs) s = (case exec gen c s of None \<Rightarrow> None | Some s' \<Rightarrow> run gen cs s')"

text \<open>A call that returns, and a sequence of calls that all return.\<close>

fun returns :: "(nat \<Rightarrow> string \<times> int) \<Rightarrow> command \<Rightarrow> heap \<times> OrderBook \<Rightarrow> bool" where
  "returns gen (Submit n t) (h, b) =
     (case match_order n gen t h b of
        None \<Rightarrow> False
      | Some (Inl x) \<Rightarrow> False
      | Some (Inr y) \<Rightarrow> True)"
| "returns gen (Cancel oid) (h, b) = True"
| "returns gen (BestResting n sd) (h, b) =
     (case get_best_resting n sd h b of Inl x \<Rightarrow> False | Inr y \<Rightarrow> True)"
| "returns gen (AddResting n r) (h, b) =
     (case add_resting_limit n r h b of Inl x \<Rightarrow> False | Inr y \<Rightarrow> True)"

fun all_return ::
  "(nat \<Rightarrow> string \<times> int) \<Rightarrow> command list \<Rightarrow> heap \<times> OrderBook \<Rightarrow> bool" where
  "all_return gen [] s = True"
| "all_return gen (c # cs) s =
     (returns gen c s
      \<and> (case exec gen c s of None \<Rightarrow> False | Some s' \<Rightarrow> all_return gen cs s'))"

subsection \<open>Sample orders\<close>

text \<open>
  The order \<open>Order(user_id="u", symbol=sy, side=sd, type=LIMIT, qty=q, price_cents=p)\<close>
  as its constructor leaves it, with id \<open>oid\<close>.
\<close>

definition limit_order :: "string \<Rightarrow> string \<Rightarrow> Side \<Rightarrow> int \<Rightarrow> int \<Rightarrow> Order" where
  "limit_order oid sy sd q p =
     \<lparr>user_id = ''u'', symbol = sy, side = sd, type = LIMIT, qty = q,
      price_cents = Some p, client_order_id = None, order_id = oid, created_ms = 0,
      remaining_qty = q, status = NEW, active = True\<rparr>"

definition sample_gen :: "nat \<Rightarrow> string \<times> int" where
  "sample_gen k = (''trade'', 0)"

text \<open>
  A store of three orders for AAPL: sells of 5 at 100 and at 200, and a buy of 5 with
  limit 150.
\<close>

definition sample_heap :: heap where
  "sample_heap =
     (\<lambda>r. limit_order ''z'' ''AAPL'' BUY 1 1)
       (0 := limit_order ''a'' ''AAPL'' SELL 5 100,
        1 := limit_order ''b'' ''AAPL'' SELL 5 200,
        2 := limit_order ''t'' ''AAPL'' BUY 5 150,
        3 := limit_order ''m'' ''MSFT'' BUY 3 100,
        4 := limit_order ''c'' ''AAPL'' BUY 3 100)"

text \<open>Two orders constructed with one id: a sell and a buy of 5 at 100.\<close>

definition reused_id_heap :: heap where
  "reused_id_heap =
     (\<lambda>r. limit_order ''z'' ''AAPL'' BUY 1 1)
       (0 := limit_order ''d'' ''AAPL'' SELL 5 100,
        1 := limit_order ''d'' ''AAPL'' BUY 5 100)"

text \<open>Two sells of 5 at 100 constructed with one id, and a buy of 3 at 100.\<close>

definition same_id_sells :: heap where
  "same_id_sells =
     (\<lambda>r. limit_order ''z'' ''AAPL'' BUY 1 1)
       (0 := limit_order ''d'' ''AAPL'' SELL 5 100,
        1 := limit_order ''d'' ''AAPL'' SELL 5 100,
        2 := limit_order ''t'' ''AAPL'' BUY 3 100)"

section \<open>Well-formed books\<close>

definition prices :: "Side \<Rightarrow> OrderBook \<Rightarrow> int list" where
  "prices sd b = (if sd = BUY then bid_prices b else ask_prices b)"

text \<open>The prices of a side, best first: highest bid first, lowest ask first.\<close>

definition best_first :: "Side \<Rightarrow> OrderBook \<Rightarrow> int list" where
  "best_first sd b = (if sd = BUY then rev (bid_prices b) else ask_prices b)"

text \<open>
  The ids queued on a side in price-time priority: the deques of the side's price
  levels, best price first, each from its head.
\<close>

definition priority :: "Side \<Rightarrow> OrderBook \<Rightarrow> string list" where
  "priority sd b = concat (map (queue_at (levels sd b)) (best_first sd b))"

text \<open>
  The book's structural invariant for one side: the price list is ascending without
  duplicates, it holds exactly the prices that have a deque, and no deque is empty.
\<close>

definition side_ok :: "Side \<Rightarrow> OrderBook \<Rightarrow> bool" where
  "side_ok sd b \<longleftrightarrow>
     sorted (prices sd b) \<and> distinct (prices sd b)
     \<and> dom (levels sd b) = set (prices sd b)
     \<and> list_all (\<lambda>p. levels sd b p \<noteq> Some []) (prices sd b)"

definition book_ok :: "OrderBook \<Rightarrow> bool" where
  "book_ok b \<longleftrightarrow> side_ok BUY b \<and> side_ok SELL b"

text \<open>
  What a lookup on side \<open>sd\<close> that returns \<open>found\<close> and the book \<open>b'\<close> has done
  to the book \<open>b\<close>: only the side's deques and price list changed; the ids taken out
  are a run of ineligible entries at the front of the priority order; and the order
  found, if any, is the eligible head of the best level's deque, still in it.
\<close>

definition lookup_result ::
  "Side \<Rightarrow> heap \<Rightarrow> OrderBook \<Rightarrow> ref option \<Rightarrow> OrderBook \<Rightarrow> bool" where
  "lookup_result sd h b found b' \<longleftrightarrow>
     orders b' = orders b \<and> book_symbol b' = book_symbol b
     \<and> levels (opp_side sd) b' = levels (opp_side sd) b
     \<and> prices (opp_side sd) b' = prices (opp_side sd) b
     \<and> side_ok sd b'
     \<and> (\<exists>dropped. priority sd b = dropped @ priority sd b'
                    \<and> (\<forall>x\<in>set dropped. \<not> eligible h b x))
     \<and> (case found of
           None \<Rightarrow> prices sd b' = []
         | Some r \<Rightarrow>
             (\<exists>p oid q. best_price sd b' = Some p \<and> levels sd b' p = Some (oid # q)
                \<and> orders b oid = Some r \<and> active (h r) \<and> 0 < remaining_qty (h r)))"

text \<open>The book a lookup leaves, whether it returns or raises.\<close>

definition book_left :: "(error \<times> OrderBook) + (ref option \<times> OrderBook) \<Rightarrow> OrderBook" where
  "book_left res = (case res of Inl x \<Rightarrow> snd x | Inr y \<Rightarrow> snd y)"

text \<open>
  Between the books \<open>b\<close> and \<open>b'\<close>, every deque of side \<open>sd\<close> lost only a run of
  ineligible ids at its head.
\<close>

definition only_stale_dropped :: "Side \<Rightarrow> heap \<Rightarrow> OrderBook \<Rightarrow> OrderBook \<Rightarrow> bool" where
  "only_stale_dropped sd h b b' \<longleftrightarrow>
     (\<forall>p. \<exists>d. queue_at (levels sd b) p = d @ queue_at (levels sd b') p
                \<and> (\<forall>x\<in>set d. \<not> eligible h b x))"

section \<open>Evaluation\<close>

lemmas book_defs =
  match_order_def add_resting_limit_def ensure_price_level_def cleanup_level_if_empty_def
  pop_next_active_at_price_def levels_def set_level_def eligible_def best_bid_def
  best_ask_def best_price_def cancel_def crosses_def opp_side_def reject_def fill_def
  decrement_def update_status_def trade_quantity_def make_trade_def insort_py_def
  list_pop_def bisect_left_def bisect_right_def OrderBook_init_def snapshot_l2_def
  slice_from_def slice_to_def queue_at_def

lemmas sample_defs =
  sample_heap_def reused_id_heap_def same_id_sells_def limit_order_def sample_gen_def

lemma get_best_resting_unfold:
  "get_best_resting n sd h b =
     (if n = 0 then Inl (RecursionError, b)
      else
        (case best_price sd b of
           None \<Rightarrow> Inr (None, b)
         | Some p \<Rightarrow>
             (case pop_next_active_at_price (n - 1) sd p h b of
                Inl x \<Rightarrow> Inl x
              | Inr res \<Rightarrow>
                  (case fst res of
                     Some r \<Rightarrow> Inr (Some r, snd res)
                   | None \<Rightarrow> get_best_resting (n - 1) sd h (snd res)))))"
proof (cases n)
  case 0
  then show ?thesis by simp
next
  case (Suc m)
  show ?thesis unfolding Suc
    by (simp only: get_best_resting.simps diff_Suc_1 nat.distinct if_False)
qed

lemmas eval_defs =
  book_defs sample_defs match_loop.simps get_best_resting_unfold
  bisect_left_loop.simps bisect_right_loop.simps

lemma post_init_limit_order:
  "0 < q \<Longrightarrow> 0 < p \<Longrightarrow> post_init (limit_order oid sy sd q p) = Inr (limit_order oid sy sd q p)"
  by (simp add: post_init_def limit_order_def)

section \<open>The bisect module on ascending lists\<close>

declare bisect_left_loop.simps [simp del] bisect_right_loop.simps [simp del]

lemma bisect_left_loop_spec:
  "sorted a \<Longrightarrow> lo \<le> hi \<Longrightarrow> hi \<le> length a \<Longrightarrow> (\<forall>i<lo. a ! i < x)
   \<Longrightarrow> (\<forall>i. hi \<le> i \<and> i < length a \<longrightarrow> x \<le> a ! i)
   \<Longrightarrow> lo \<le> bisect_left_loop a x lo hi \<and> bisect_left_loop a x lo hi \<le> hi
       \<and> (\<forall>i<bisect_left_loop a x lo hi. a ! i < x)
       \<and> (\<forall>i. bisect_left_loop a x lo hi \<le> i \<and> i < length a \<longrightarrow> x \<le> a ! i)"
proof (induction a x lo hi rule: bisect_left_loop.induct)
  case (1 a x lo hi)
  show ?case
  proof (cases "lo < hi")
    case False
    then have "bisect_left_loop a x lo hi = lo"
      by (subst bisect_left_loop.simps) simp
    with False "1.prems" show ?thesis by auto
  next
    case True
    let ?mid = "(lo + hi) div 2"
    from True have mid: "lo \<le> ?mid" "?mid < hi" by auto
    show ?thesis
    proof (cases "a ! ?mid < x")
      case lt: True
      have below: "\<forall>i<?mid + 1. a ! i < x"
      proof (intro allI impI)
        fix i assume "i < ?mid + 1"
        then have "i \<le> ?mid" by simp
        with "1.prems"(1,3) mid have "a ! i \<le> a ! ?mid"
          by (intro sorted_nth_mono) auto
        with lt show "a ! i < x" by simp
      qed
      from "1.IH"(1) [OF True lt "1.prems"(1) _ "1.prems"(3) below "1.prems"(5)] mid
      have "?mid + 1 \<le> bisect_left_loop a x (?mid + 1) hi \<and> bisect_left_loop a x (?mid + 1) hi \<le> hi
        \<and> (\<forall>i<bisect_left_loop a x (?mid + 1) hi. a ! i < x)
        \<and> (\<forall>i. bisect_left_loop a x (?mid + 1) hi \<le> i \<and> i < length a \<longrightarrow> x \<le> a ! i)"
        by simp
      moreover have "bisect_left_loop a x lo hi = bisect_left_loop a x (?mid + 1) hi"
        using True lt by (subst bisect_left_loop.simps) simp
      ultimately show ?thesis using mid by auto
    next
      case ge: False
      have above: "\<forall>i. ?mid \<le> i \<and> i < length a \<longrightarrow> x \<le> a ! i"
      proof (intro allI impI)
        fix i assume "?mid \<le> i \<and> i < length a"
        with "1.prems"(1) have "a ! ?mid \<le> a ! i"
          by (intro sorted_nth_mono) auto
        with ge show "x \<le> a ! i" by simp
      qed
      from "1.IH"(2) [OF True ge "1.prems"(1) _ _ "1.prems"(4) above] mid "1.prems"(3)
      have "lo \<le> bisect_left_loop a x lo ?mid \<and> bisect_left_loop a x lo ?mid \<le> ?mid
        \<and> (\<forall>i<bisect_left_loop a x lo ?mid. a ! i < x)
        \<and> (\<forall>i. bisect_left_loop a x lo ?mid \<le> i \<and> i < length a \<longrightarrow> x \<le> a ! i)"
        by simp
      moreover have "bisect_left_loop a x lo hi = bisect_left_loop a x lo ?mid"
        using True ge by (subst bisect_left_loop.simps) simp
      ultimately show ?thesis using mid by auto
    qed
  qed
qed

lemma bisect_left_spec:
  assumes "sorted a"
  shows "bisect_left a x \<le> length a \<and> (\<forall>i<bisect_left a x. a ! i < x)
         \<and> (\<forall>i. bisect_left a x \<le> i \<and> i < length a \<longrightarrow> x \<le> a ! i)"
  using bisect_left_loop_spec [of a 0 "length a" x] assms by (simp add: bisect_left_def)

lemma bisect_left_finds:
  assumes "sorted a" "x \<in> set a"
  shows "bisect_left a x < length a \<and> a ! bisect_left a x = x"
proof -
  from assms(2) obtain k where k: "k < length a" "a ! k = x" by (auto simp: in_set_conv_nth)
  let ?r = "bisect_left a x"
  from bisect_left_spec [OF assms(1), of x]
  have r: "?r \<le> length a" "\<forall>i<?r. a ! i < x" "\<forall>i. ?r \<le> i \<and> i < length a \<longrightarrow> x \<le> a ! i"
    by auto
  from r(2) k have "?r \<le> k" by (metis not_less less_irrefl)
  with k have lt: "?r < length a" by simp
  from r(3) lt have "x \<le> a ! ?r" by simp
  moreover from assms(1) \<open>?r \<le> k\<close> k have "a ! ?r \<le> x" by (auto intro: sorted_nth_mono)
  ultimately show ?thesis using lt by simp
qed

lemma list_pop_remove1:
  assumes "distinct a" "i < length a"
  shows "list_pop a i = remove1 (a ! i) a"
proof -
  have a: "a = take i a @ a ! i # drop (Suc i) a" using assms(2) by (rule id_take_nth_drop)
  have "a ! i \<notin> set (take i a)"
    using assms by (metis a distinct_append distinct.simps(2) disjoint_iff list.set_intros(1) not_distinct_conv_prefix)
  then have "remove1 (a ! i) (take i a @ a ! i # drop (Suc i) a) = take i a @ drop (Suc i) a"
    by (simp add: remove1_append)
  with a show ?thesis by (simp add: list_pop_def)
qed


lemma bisect_right_loop_spec:
  "sorted a \<Longrightarrow> lo \<le> hi \<Longrightarrow> hi \<le> length a \<Longrightarrow> (\<forall>i<lo. a ! i \<le> x)
   \<Longrightarrow> (\<forall>i. hi \<le> i \<and> i < length a \<longrightarrow> x < a ! i)
   \<Longrightarrow> lo \<le> bisect_right_loop a x lo hi \<and> bisect_right_loop a x lo hi \<le> hi
       \<and> (\<forall>i<bisect_right_loop a x lo hi. a ! i \<le> x)
       \<and> (\<forall>i. bisect_right_loop a x lo hi \<le> i \<and> i < length a \<longrightarrow> x < a ! i)"
proof (induction a x lo hi rule: bisect_right_loop.induct)
  case (1 a x lo hi)
  show ?case
  proof (cases "lo < hi")
    case False
    then have "bisect_right_loop a x lo hi = lo"
      by (subst bisect_right_loop.simps) simp
    with False "1.prems" show ?thesis by auto
  next
    case True
    let ?mid = "(lo + hi) div 2"
    from True have mid: "lo \<le> ?mid" "?mid < hi" by auto
    show ?thesis
    proof (cases "x < a ! ?mid")
      case lt: True
      have above: "\<forall>i. ?mid \<le> i \<and> i < length a \<longrightarrow> x < a ! i"
      proof (intro allI impI)
        fix i assume "?mid \<le> i \<and> i < length a"
        with "1.prems"(1) have "a ! ?mid \<le> a ! i"
          by (intro sorted_nth_mono) auto
        with lt show "x < a ! i" by simp
      qed
      from "1.IH"(1) [OF True lt "1.prems"(1) _ _ "1.prems"(4) above] mid "1.prems"(3)
      have "lo \<le> bisect_right_loop a x lo ?mid \<and> bisect_right_loop a x lo ?mid \<le> ?mid
        \<and> (\<forall>i<bisect_right_loop a x lo ?mid. a ! i \<le> x)
        \<and> (\<forall>i. bisect_right_loop a x lo ?mid \<le> i \<and> i < length a \<longrightarrow> x < a ! i)"
        by simp
      moreover have "bisect_right_loop a x lo hi = bisect_right_loop a x lo ?mid"
        using True lt by (subst bisect_right_loop.simps) simp
      ultimately show ?thesis using mid by auto
    next
      case ge: False
      have below: "\<forall>i<?mid + 1. a ! i \<le> x"
      proof (intro allI impI)
        fix i assume "i < ?mid + 1"
        then have "i \<le> ?mid" by simp
        with "1.prems"(1,3) mid have "a ! i \<le> a ! ?mid"
          by (intro sorted_nth_mono) auto
        with ge show "a ! i \<le> x" by simp
      qed
      from "1.IH"(2) [OF True ge "1.prems"(1) _ "1.prems"(3) below "1.prems"(5)] mid
      have "?mid + 1 \<le> bisect_right_loop a x (?mid + 1) hi \<and> bisect_right_loop a x (?mid + 1) hi \<le> hi
        \<and> (\<forall>i<bisect_right_loop a x (?mid + 1) hi. a ! i \<le> x)
        \<and> (\<forall>i. bisect_right_loop a x (?mid + 1) hi \<le> i \<and> i < length a \<longrightarrow> x < a ! i)"
        by simp
      moreover have "bisect_right_loop a x lo hi = bisect_right_loop a x (?mid + 1) hi"
        using True ge by (subst bisect_right_loop.simps) simp
      ultimately show ?thesis using mid by auto
    qed
  qed
qed

lemma bisect_right_spec:
  assumes "sorted a"
  shows "bisect_right a x \<le> length a \<and> (\<forall>i<bisect_right a x. a ! i \<le> x)
         \<and> (\<forall>i. bisect_right a x \<le> i \<and> i < length a \<longrightarrow> x < a ! i)"
  using bisect_right_loop_spec [of a 0 "length a" x] assms by (simp add: bisect_right_def)

lemma set_insort_py: "set (insort_py a x) = insert x (set a)"
proof -
  have "set (take (bisect_right a x) a) \<union> set (drop (bisect_right a x) a) = set a"
    by (metis append_take_drop_id set_append)
  then show ?thesis by (auto simp: insort_py_def)
qed

lemma sorted_insort_py:
  assumes "sorted a"
  shows "sorted (insort_py a x)"
proof -
  let ?r = "bisect_right a x"
  from bisect_right_spec [OF assms, of x]
  have r: "?r \<le> length a" "\<forall>i<?r. a ! i \<le> x" "\<forall>i. ?r \<le> i \<and> i < length a \<longrightarrow> x < a ! i"
    by auto
  have lo: "\<forall>y\<in>set (take ?r a). y \<le> x"
    using r(1,2) by (auto simp: in_set_conv_nth)
  have hi: "\<forall>y\<in>set (drop ?r a). x < y"
    using r(3) by (auto simp: in_set_conv_nth)
  have "sorted (take ?r a)" "sorted (drop ?r a)"
    using assms by (simp_all add: sorted_wrt_take sorted_wrt_drop)
  with lo hi show ?thesis
    by (fastforce simp: insort_py_def sorted_append)
qed

lemma distinct_insort_py:
  assumes "distinct a" "x \<notin> set a"
  shows "distinct (insort_py a x)"
proof -
  have "distinct (take (bisect_right a x) a) \<and> distinct (drop (bisect_right a x) a)
      \<and> set (take (bisect_right a x) a) \<inter> set (drop (bisect_right a x) a) = {}"
    using assms(1) by (metis append_take_drop_id distinct_append)
  moreover have "x \<notin> set (take (bisect_right a x) a)" "x \<notin> set (drop (bisect_right a x) a)"
    using assms(2) by (auto dest: in_set_takeD in_set_dropD)
  ultimately show ?thesis by (auto simp: insort_py_def)
qed

section \<open>Effect of the helpers on the book's fields\<close>

lemma Side_neq [simp]: "(sd \<noteq> BUY) = (sd = SELL)" "(sd \<noteq> SELL) = (sd = BUY)"
  by (cases sd; simp)+

lemma opp_side_simps [simp]: "opp_side BUY = SELL" "opp_side SELL = BUY"
  by (simp_all add: opp_side_def)

lemma set_level_fields [simp]:
  "orders (set_level sd p q b) = orders b"
  "book_symbol (set_level sd p q b) = book_symbol b"
  "prices sd' (set_level sd p q b) = prices sd' b"
  "best_first sd' (set_level sd p q b) = best_first sd' b"
  "levels sd' (set_level sd p q b) = (if sd' = sd then (levels sd b)(p \<mapsto> q) else levels sd' b)"
  by (cases sd; cases sd'; simp add: set_level_def prices_def levels_def best_first_def)+

lemma set_level_same:
  "levels sd b p = Some q \<Longrightarrow> set_level sd p q b = b"
  by (cases sd) (simp_all add: set_level_def levels_def fun_upd_idem)

lemma cleanup_fields [simp]:
  "orders (cleanup_level_if_empty sd p b) = orders b"
  "book_symbol (cleanup_level_if_empty sd p b) = book_symbol b"
  "sd' \<noteq> sd \<Longrightarrow> prices sd' (cleanup_level_if_empty sd p b) = prices sd' b"
  "sd' \<noteq> sd \<Longrightarrow> levels sd' (cleanup_level_if_empty sd p b) = levels sd' b"
  by (cases sd; cases sd'; simp add: cleanup_level_if_empty_def prices_def levels_def)+

lemma cleanup_emptied:
  assumes "sorted (prices sd b)" "distinct (prices sd b)" "p \<in> set (prices sd b)"
    and "levels sd b p = Some []"
  shows "levels sd (cleanup_level_if_empty sd p b) = (levels sd b)(p := None)"
    and "prices sd (cleanup_level_if_empty sd p b) = remove1 p (prices sd b)"
proof -
  from bisect_left_finds [OF assms(1,3)]
  have f: "bisect_left (prices sd b) p < length (prices sd b)"
    "prices sd b ! bisect_left (prices sd b) p = p" by auto
  from list_pop_remove1 [OF assms(2) f(1)] f(2)
  have pop: "list_pop (prices sd b) (bisect_left (prices sd b) p) = remove1 p (prices sd b)"
    by simp
  show "levels sd (cleanup_level_if_empty sd p b) = (levels sd b)(p := None)"
    using assms(4) f by (cases sd) (simp_all add: cleanup_level_if_empty_def prices_def levels_def)
  show "prices sd (cleanup_level_if_empty sd p b) = remove1 p (prices sd b)"
    using assms(4) f pop by (cases sd) (simp_all add: cleanup_level_if_empty_def prices_def levels_def)
qed

lemma ensure_fields [simp]:
  "orders (ensure_price_level sd p b) = orders b"
  "book_symbol (ensure_price_level sd p b) = book_symbol b"
  "sd' \<noteq> sd \<Longrightarrow> prices sd' (ensure_price_level sd p b) = prices sd' b"
  "sd' \<noteq> sd \<Longrightarrow> levels sd' (ensure_price_level sd p b) = levels sd' b"
  by (cases sd; cases sd'; simp add: ensure_price_level_def prices_def levels_def)+

lemma ensure_this_side:
  "levels sd (ensure_price_level sd p b)
     = (if levels sd b p = None then (levels sd b)(p \<mapsto> []) else levels sd b)"
  "prices sd (ensure_price_level sd p b)
     = (if levels sd b p = None then insort_py (prices sd b) p else prices sd b)"
  by (cases sd; simp add: ensure_price_level_def prices_def levels_def)+

lemma orders_update_fields [simp]:
  "prices sd (b\<lparr>orders := m\<rparr>) = prices sd b"
  "levels sd (b\<lparr>orders := m\<rparr>) = levels sd b"
  "best_first sd (b\<lparr>orders := m\<rparr>) = best_first sd b"
  by (simp_all add: prices_def levels_def best_first_def)

section \<open>The structural invariant is kept\<close>

lemma side_ok_other:
  "sd' \<noteq> sd \<Longrightarrow> levels sd' b' = levels sd' b \<Longrightarrow> prices sd' b' = prices sd' b
   \<Longrightarrow> side_ok sd' b' = side_ok sd' b"
  by (simp add: side_ok_def)

lemma side_ok_set_level:
  assumes "side_ok sd b" "p \<in> set (prices sd b)" "q \<noteq> []"
  shows "side_ok sd (set_level sd p q b)"
  using assms by (auto simp: side_ok_def list_all_iff)

lemma side_ok_cleanup:
  assumes "side_ok sd b" "p \<in> set (prices sd b)"
  shows "side_ok sd (cleanup_level_if_empty sd p (set_level sd p [] b))"
    and "prices sd (cleanup_level_if_empty sd p (set_level sd p [] b)) = remove1 p (prices sd b)"
    and "levels sd (cleanup_level_if_empty sd p (set_level sd p [] b)) = (levels sd b)(p := None)"
proof -
  let ?b1 = "set_level sd p [] b"
  from assms have s: "sorted (prices sd ?b1)" "distinct (prices sd ?b1)" "p \<in> set (prices sd ?b1)"
    "levels sd ?b1 p = Some []"
    by (simp_all add: side_ok_def)
  note c = cleanup_emptied [OF s]
  show p: "prices sd (cleanup_level_if_empty sd p ?b1) = remove1 p (prices sd b)"
    using c(2) by simp
  show l: "levels sd (cleanup_level_if_empty sd p ?b1) = (levels sd b)(p := None)"
    using c(1) by simp
  show "side_ok sd (cleanup_level_if_empty sd p ?b1)"
    unfolding side_ok_def p l using assms
    by (auto simp: side_ok_def list_all_iff sorted_remove1 dest: notin_set_remove1)
qed

lemma side_ok_append:
  assumes "side_ok sd b"
  shows "\<exists>q. levels sd (ensure_price_level sd p b) p = Some q
           \<and> side_ok sd (set_level sd p (q @ [oid]) (ensure_price_level sd p b))"
proof (cases "levels sd b p")
  case None
  with assms have "p \<notin> set (prices sd b)" by (auto simp: side_ok_def)
  with assms None show ?thesis
    by (auto simp: ensure_this_side side_ok_def list_all_iff sorted_insort_py
        distinct_insort_py set_insort_py)
next
  case (Some q)
  with assms have "p \<in> set (prices sd b)" by (auto simp: side_ok_def)
  with assms Some show ?thesis
    by (auto simp: ensure_this_side side_ok_def list_all_iff)
qed

section \<open>The lazy lookup\<close>

lemma eligible_orders_cong: "orders b' = orders b \<Longrightarrow> eligible h b' = eligible h b"
  by (rule ext) (simp add: eligible_def)

lemma drop_inactive_split:
  "\<exists>pre. q = pre @ drop_inactive h b q \<and> (\<forall>x\<in>set pre. \<not> eligible h b x)"
proof (induction q)
  case Nil
  then show ?case by simp
next
  case (Cons oid q)
  show ?case
  proof (cases "eligible h b oid")
    case True
    then show ?thesis by simp
  next
    case False
    from Cons obtain pre where "q = pre @ drop_inactive h b q" "\<forall>x\<in>set pre. \<not> eligible h b x"
      by blast
    with False have "oid # q = (oid # pre) @ drop_inactive h b (oid # q)
        \<and> (\<forall>x\<in>set (oid # pre). \<not> eligible h b x)"
      by simp
    then show ?thesis by blast
  qed
qed

lemma drop_inactive_head:
  "drop_inactive h b q = oid # q' \<Longrightarrow> eligible h b oid"
  by (induction q) (auto split: if_splits)

lemma best_price_best_first:
  "best_price sd b = (case best_first sd b of [] \<Rightarrow> None | p # rest \<Rightarrow> Some p)"
  by (cases sd)
     (auto simp: best_price_def best_bid_def best_ask_def best_first_def hd_rev
           split: list.splits)

lemma best_first_set: "set (best_first sd b) = set (prices sd b)"
  by (cases sd) (simp_all add: best_first_def prices_def)

lemma best_first_length: "length (best_first sd b) = length (prices sd b)"
  by (cases sd) (simp_all add: best_first_def prices_def)

lemma best_first_remove_head:
  assumes "best_first sd b = p # rest" "distinct (prices sd b)"
    and "prices sd b' = remove1 p (prices sd b)"
  shows "best_first sd b' = rest"
proof (cases sd)
  case BUY
  with assms(1) have "bid_prices b = rev rest @ [p]"
    by (simp add: best_first_def rev_swap [symmetric])
  moreover with assms(2) BUY have "p \<notin> set (rev rest)" by (simp add: prices_def)
  ultimately have "remove1 p (bid_prices b) = rev rest" by (simp add: remove1_append)
  with assms(3) BUY show ?thesis by (simp add: best_first_def prices_def)
next
  case SELL
  with assms show ?thesis by (simp add: best_first_def prices_def)
qed

lemma priority_cons:
  "best_first sd b = p # rest \<Longrightarrow>
   priority sd b = queue_at (levels sd b) p @ concat (map (queue_at (levels sd b)) rest)"
  by (simp add: priority_def)

lemma queue_at_map_upd:
  "p \<notin> set rest \<Longrightarrow> map (queue_at (lv(p := v))) rest = map (queue_at lv) rest"
  by (induction rest) (auto simp: queue_at_def)

lemma book_left_simps [simp]:
  "book_left (Inl (e, b)) = b" "book_left (Inr (found, b)) = b"
  by (simp_all add: book_left_def)

lemma only_stale_dropped_refl: "only_stale_dropped sd h b b"
  unfolding only_stale_dropped_def by (intro allI exI [of _ "[]"]) simp

lemma only_stale_dropped_trans:
  assumes "only_stale_dropped sd h b b1" "only_stale_dropped sd h b1 b2" "orders b1 = orders b"
  shows "only_stale_dropped sd h b b2"
  unfolding only_stale_dropped_def
proof (intro allI)
  fix p
  from assms(1) obtain d1 where d1: "queue_at (levels sd b) p = d1 @ queue_at (levels sd b1) p"
    "\<forall>x\<in>set d1. \<not> eligible h b x" unfolding only_stale_dropped_def by blast
  from assms(2) obtain d2 where d2: "queue_at (levels sd b1) p = d2 @ queue_at (levels sd b2) p"
    "\<forall>x\<in>set d2. \<not> eligible h b1 x" unfolding only_stale_dropped_def by blast
  from d2(2) eligible_orders_cong [OF assms(3), of h] have "\<forall>x\<in>set d2. \<not> eligible h b x"
    by simp
  with d1 d2(1) have "queue_at (levels sd b) p = (d1 @ d2) @ queue_at (levels sd b2) p
      \<and> (\<forall>x\<in>set (d1 @ d2). \<not> eligible h b x)" by auto
  then show "\<exists>d. queue_at (levels sd b) p = d @ queue_at (levels sd b2) p
      \<and> (\<forall>x\<in>set d. \<not> eligible h b x)" by (rule exI)
qed

lemma only_stale_dropped_level:
  assumes "levels sd b p = Some q" "q = pre @ q'" "\<forall>x\<in>set pre. \<not> eligible h b x"
    and "levels sd b' = (levels sd b)(p := v)" "queue_at (levels sd b') p = q'"
  shows "only_stale_dropped sd h b b'"
  unfolding only_stale_dropped_def
proof (intro allI)
  fix p'
  show "\<exists>d. queue_at (levels sd b) p' = d @ queue_at (levels sd b') p'
      \<and> (\<forall>x\<in>set d. \<not> eligible h b x)"
  proof (cases "p' = p")
    case True
    from assms(1,2,5) True have "queue_at (levels sd b) p' = pre @ queue_at (levels sd b') p'"
      by (simp add: queue_at_def)
    with assms(3) show ?thesis by blast
  next
    case False
    with assms(4) have "queue_at (levels sd b) p' = [] @ queue_at (levels sd b') p'"
      by (simp add: queue_at_def)
    then show ?thesis by (intro exI [of _ "[]"]) simp
  qed
qed

text \<open>
  The outcomes of one call of \<open>_pop_next_active_at_price\<close> at a price \<open>p\<close>.
\<close>

lemma pop_cases [case_names nothing raised reaped found]:
  obtains
    (nothing) "levels sd b p = None \<or> levels sd b p = Some []"
      "pop_next_active_at_price n sd p h b = Inr (None, b)"
  | (raised) q where "levels sd b p = Some q" "q \<noteq> []" "\<forall>x\<in>set q. \<not> eligible h b x"
      "n = 0" "pop_next_active_at_price n sd p h b = Inl (RecursionError, set_level sd p [] b)"
  | (reaped) q where "levels sd b p = Some q" "q \<noteq> []" "\<forall>x\<in>set q. \<not> eligible h b x"
      "0 < n"
      "pop_next_active_at_price n sd p h b
         = Inr (None, cleanup_level_if_empty sd p (set_level sd p [] b))"
  | (found) q pre oid q' r where "levels sd b p = Some q" "q = pre @ oid # q'"
      "\<forall>x\<in>set pre. \<not> eligible h b x" "orders b oid = Some r" "active (h r)"
      "0 < remaining_qty (h r)"
      "pop_next_active_at_price n sd p h b = Inr (Some r, set_level sd p (oid # q') b)"
proof (cases "levels sd b p")
  case None
  then have e: "pop_next_active_at_price n sd p h b = Inr (None, b)"
    by (simp add: pop_next_active_at_price_def)
  from None have "levels sd b p = None \<or> levels sd b p = Some []" by simp
  from this e show thesis by (rule nothing)
next
  case (Some q)
  show thesis
  proof (cases "q = []")
    case True
    with Some have e: "pop_next_active_at_price n sd p h b = Inr (None, b)"
      by (simp add: pop_next_active_at_price_def)
    from Some True have "levels sd b p = None \<or> levels sd b p = Some []" by simp
    from this e show thesis by (rule nothing)
  next
    case ne: False
    from drop_inactive_split [of q h b] obtain pre where
      pre: "q = pre @ drop_inactive h b q" "\<forall>x\<in>set pre. \<not> eligible h b x" by blast
    show thesis
    proof (cases "drop_inactive h b q")
      case Nil
      with pre have stale: "\<forall>x\<in>set q. \<not> eligible h b x" by simp
      show thesis
      proof (cases "n = 0")
        case True
        with Some ne Nil have
          e: "pop_next_active_at_price n sd p h b = Inl (RecursionError, set_level sd p [] b)"
          by (simp add: pop_next_active_at_price_def)
        from Some ne stale True e show thesis by (rule raised)
      next
        case False
        with Some ne Nil have
          e: "pop_next_active_at_price n sd p h b
             = Inr (None, cleanup_level_if_empty sd p (set_level sd p [] b))"
          by (simp add: pop_next_active_at_price_def)
        from False have "0 < n" by simp
        from Some ne stale this e show thesis by (rule reaped)
      qed
    next
      case (Cons oid q')
      from drop_inactive_head [OF Cons] have "eligible h b oid" .
      then obtain r where r: "orders b oid = Some r" "active (h r)" "0 < remaining_qty (h r)"
        by (cases "orders b oid") (simp_all add: eligible_def)
      from Some ne Cons r(1) have
        e: "pop_next_active_at_price n sd p h b = Inr (Some r, set_level sd p (oid # q') b)"
        by (simp add: pop_next_active_at_price_def)
      from pre Cons have "q = pre @ oid # q'" by simp
      from Some this pre(2) r e show thesis by (rule found)
    qed
  qed
qed


lemma opp_side_neq [simp]: "opp_side sd \<noteq> sd" "sd \<noteq> opp_side sd"
  by (cases sd; simp)+

lemma cleanup_levels:
  "levels sd b p = Some [] \<Longrightarrow> levels sd (cleanup_level_if_empty sd p b) = (levels sd b)(p := None)"
  by (cases sd) (simp_all add: cleanup_level_if_empty_def levels_def)

lemma best_price_set_level [simp]: "best_price sd' (set_level sd p q b) = best_price sd' b"
  by (simp add: best_price_best_first)

lemma pop_frame:
  "orders (book_left (pop_next_active_at_price n sd p h b)) = orders b"
  "book_symbol (book_left (pop_next_active_at_price n sd p h b)) = book_symbol b"
  "levels (opp_side sd) (book_left (pop_next_active_at_price n sd p h b)) = levels (opp_side sd) b"
  "prices (opp_side sd) (book_left (pop_next_active_at_price n sd p h b)) = prices (opp_side sd) b"
  by (cases rule: pop_cases [of sd b p n h]; simp)+

lemma pop_only_stale:
  "only_stale_dropped sd h b (book_left (pop_next_active_at_price n sd p h b))"
proof (cases rule: pop_cases [of sd b p n h])
  case nothing
  then show ?thesis by (simp add: only_stale_dropped_refl)
next
  case (raised q)
  have "only_stale_dropped sd h b (set_level sd p [] b)"
    by (rule only_stale_dropped_level [of sd b p q q "[]" h _ "Some []"])
       (use raised in \<open>simp_all add: queue_at_def\<close>)
  with raised(5) show ?thesis by simp
next
  case (reaped q)
  let ?b' = "cleanup_level_if_empty sd p (set_level sd p [] b)"
  have l: "levels sd ?b' = (levels sd b)(p := None)"
    by (subst cleanup_levels) simp_all
  have "only_stale_dropped sd h b ?b'"
    by (rule only_stale_dropped_level [of sd b p q q "[]" h _ None])
       (use reaped l in \<open>simp_all add: queue_at_def\<close>)
  with reaped(5) show ?thesis by simp
next
  case (found q pre oid q' r)
  have "only_stale_dropped sd h b (set_level sd p (oid # q') b)"
    by (rule only_stale_dropped_level [of sd b p q pre "oid # q'" h _ "Some (oid # q')"])
       (use found in \<open>simp_all add: queue_at_def\<close>)
  with found(7) show ?thesis by simp
qed

text \<open>A lookup at the best price of a well-formed side that returns.\<close>

lemma pop_spec:
  assumes ok: "side_ok sd b" and bf: "best_first sd b = p # rest"
    and pop: "pop_next_active_at_price n sd p h b = Inr (found, b')"
  shows "side_ok sd b'"
    and "\<exists>dropped. priority sd b = dropped @ priority sd b'
           \<and> (\<forall>x\<in>set dropped. \<not> eligible h b x)"
    and "best_first sd b' = (case found of None \<Rightarrow> rest | Some r \<Rightarrow> p # rest)"
proof -
  from bf have pin: "p \<in> set (prices sd b)"
    by (metis best_first_set list.set_intros(1))
  from ok have dist: "distinct (prices sd b)" by (simp add: side_ok_def)
  from bf dist have prest: "p \<notin> set rest"
    by (metis best_first_set best_first_length card_distinct distinct.simps(2) distinct_card)
  from ok pin obtain q0 where q0: "levels sd b p = Some q0" "q0 \<noteq> []"
    by (auto simp: side_ok_def list_all_iff)
  have "side_ok sd b'
      \<and> (\<exists>dropped. priority sd b = dropped @ priority sd b'
           \<and> (\<forall>x\<in>set dropped. \<not> eligible h b x))
      \<and> best_first sd b' = (case found of None \<Rightarrow> rest | Some r \<Rightarrow> p # rest)"
  proof (cases rule: pop_cases [of sd b p n h])
    case nothing
    with q0 show ?thesis by auto
  next
    case (raised q)
    with pop show ?thesis by simp
  next
    case (reaped q)
    let ?b' = "cleanup_level_if_empty sd p (set_level sd p [] b)"
    from reaped(5) pop have fb: "found = None" "b' = ?b'" by simp_all
    note c = side_ok_cleanup [OF ok pin]
    have bf': "best_first sd ?b' = rest"
      using best_first_remove_head [OF bf dist c(2)] .
    have "priority sd ?b' = concat (map (queue_at (levels sd b)) rest)"
      using bf' prest by (simp add: priority_def c(3) queue_at_map_upd)
    with priority_cons [OF bf] reaped(1) have pr: "priority sd b = q @ priority sd ?b'"
      by (simp add: queue_at_def)
    from pr reaped(3) have "\<exists>dropped. priority sd b = dropped @ priority sd ?b'
           \<and> (\<forall>x\<in>set dropped. \<not> eligible h b x)" by blast
    with c(1) bf' show ?thesis unfolding fb by simp
  next
    case found': (found q pre oid q' r)
    let ?b' = "set_level sd p (oid # q') b"
    from found'(7) pop have fb: "found = Some r" "b' = ?b'" by simp_all
    have okb: "side_ok sd ?b'" using side_ok_set_level [OF ok pin] by simp
    have bf': "best_first sd ?b' = p # rest" using bf by simp
    have "priority sd ?b' = (oid # q') @ concat (map (queue_at (levels sd b)) rest)"
      using bf' prest by (simp add: priority_def queue_at_map_upd) (simp add: queue_at_def)
    with priority_cons [OF bf] found'(1,2) have pr: "priority sd b = pre @ priority sd ?b'"
      by (simp add: queue_at_def)
    from pr found'(3) have "\<exists>dropped. priority sd b = dropped @ priority sd ?b'
           \<and> (\<forall>x\<in>set dropped. \<not> eligible h b x)" by blast
    with okb bf' show ?thesis unfolding fb by simp
  qed
  then show "side_ok sd b'"
    and "\<exists>dropped. priority sd b = dropped @ priority sd b'
           \<and> (\<forall>x\<in>set dropped. \<not> eligible h b x)"
    and "best_first sd b' = (case found of None \<Rightarrow> rest | Some r \<Rightarrow> p # rest)"
    by blast+
qed

lemma pop_returns:
  assumes "side_ok sd b" "0 < n"
  shows "\<exists>found b'. pop_next_active_at_price n sd p h b = Inr (found, b')"
  using assms(2) by (cases rule: pop_cases [of sd b p n h]) simp_all


text \<open>The outcomes of \<open>get_best_resting\<close> with a frame free.\<close>

lemma get_best_resting_cases [case_names empty raised found retry]:
  obtains
    (empty) "best_price sd b = None" "get_best_resting (Suc n) sd h b = Inr (None, b)"
  | (raised) p x where "best_price sd b = Some p"
      "pop_next_active_at_price n sd p h b = Inl x" "get_best_resting (Suc n) sd h b = Inl x"
  | (found) p r b1 where "best_price sd b = Some p"
      "pop_next_active_at_price n sd p h b = Inr (Some r, b1)"
      "get_best_resting (Suc n) sd h b = Inr (Some r, b1)"
  | (retry) p b1 where "best_price sd b = Some p"
      "pop_next_active_at_price n sd p h b = Inr (None, b1)"
      "get_best_resting (Suc n) sd h b = get_best_resting n sd h b1"
proof (cases "best_price sd b")
  case None
  then have "get_best_resting (Suc n) sd h b = Inr (None, b)" by simp
  with None show thesis by (rule empty)
next
  case (Some p)
  show thesis
  proof (cases "pop_next_active_at_price n sd p h b")
    case (Inl x)
    with Some have "get_best_resting (Suc n) sd h b = Inl x" by simp
    with Some Inl show thesis by (rule raised)
  next
    case (Inr res)
    obtain fd b1 where res: "res = (fd, b1)" by (cases res)
    show thesis
    proof (cases fd)
      case None
      with Some Inr res have "get_best_resting (Suc n) sd h b = get_best_resting n sd h b1"
        by simp
      moreover from Inr res None have "pop_next_active_at_price n sd p h b = Inr (None, b1)"
        by simp
      ultimately show thesis using Some by (intro retry [of p b1])
    next
      case (Some r)
      with \<open>best_price sd b = Some p\<close> Inr res
      have "get_best_resting (Suc n) sd h b = Inr (Some r, b1)" by simp
      moreover from Inr res Some have "pop_next_active_at_price n sd p h b = Inr (Some r, b1)"
        by simp
      ultimately show thesis using \<open>best_price sd b = Some p\<close> by (intro found [of p r b1])
    qed
  qed
qed

text \<open>
  Whatever the book and the number of frames, and whether it returns or raises, the
  lookup changes only the deques and the price list of its side, and takes out of a
  deque only a run of ineligible ids at its head.
\<close>

lemma get_best_resting_frame:
  "orders (book_left (get_best_resting n sd h b)) = orders b
   \<and> book_symbol (book_left (get_best_resting n sd h b)) = book_symbol b
   \<and> levels (opp_side sd) (book_left (get_best_resting n sd h b)) = levels (opp_side sd) b
   \<and> prices (opp_side sd) (book_left (get_best_resting n sd h b)) = prices (opp_side sd) b
   \<and> only_stale_dropped sd h b (book_left (get_best_resting n sd h b))"
proof (induction n arbitrary: b)
  case 0
  show ?case by (simp add: only_stale_dropped_refl)
next
  case (Suc n)
  show ?case
  proof (cases rule: get_best_resting_cases [of sd b n h])
    case empty
    then show ?thesis by (simp add: only_stale_dropped_refl)
  next
    case (raised p x)
    from pop_frame [where n = n and sd = sd and p = p and h = h and b = b] pop_only_stale [where n = n and sd = sd and p = p and h = h and b = b] raised(2,3)
    show ?thesis by simp
  next
    case (found p r b1)
    from pop_frame [where n = n and sd = sd and p = p and h = h and b = b] pop_only_stale [where n = n and sd = sd and p = p and h = h and b = b] found(2,3)
    show ?thesis by simp
  next
    case (retry p b1)
    from pop_frame [where n = n and sd = sd and p = p and h = h and b = b] pop_only_stale [where n = n and sd = sd and p = p and h = h and b = b] retry(2)
    have f: "orders b1 = orders b" "book_symbol b1 = book_symbol b"
      "levels (opp_side sd) b1 = levels (opp_side sd) b"
      "prices (opp_side sd) b1 = prices (opp_side sd) b"
      and o: "only_stale_dropped sd h b b1" by simp_all
    let ?b2 = "book_left (get_best_resting n sd h b1)"
    from Suc.IH [of b1] have i: "orders ?b2 = orders b1" "book_symbol ?b2 = book_symbol b1"
      "levels (opp_side sd) ?b2 = levels (opp_side sd) b1"
      "prices (opp_side sd) ?b2 = prices (opp_side sd) b1"
      and o2: "only_stale_dropped sd h b1 ?b2" by simp_all
    from only_stale_dropped_trans [OF o o2 f(1)] have "only_stale_dropped sd h b ?b2" .
    with f i show ?thesis unfolding retry(3) by simp
  qed
qed

lemma get_best_resting_error:
  "get_best_resting n sd h b = Inl (e, b') \<Longrightarrow> e = RecursionError"
proof (induction n arbitrary: b)
  case 0
  then show ?case by simp
next
  case (Suc n)
  show ?case
  proof (cases rule: get_best_resting_cases [of sd b n h])
    case empty
    with Suc.prems show ?thesis by simp
  next
    case (raised p x)
    with Suc.prems have "pop_next_active_at_price n sd p h b = Inl (e, b')" by simp
    then show ?thesis by (cases rule: pop_cases [of sd b p n h]) simp_all
  next
    case (found p r b1)
    with Suc.prems show ?thesis by simp
  next
    case (retry p b1)
    with Suc.prems Suc.IH [of b1] show ?thesis by simp
  qed
qed

text \<open>The order a lookup returns is eligible and still heads the best price's deque.\<close>

lemma get_best_resting_found:
  assumes "get_best_resting n sd h b = Inr (Some r, b')"
  shows "active (h r) \<and> 0 < remaining_qty (h r)
         \<and> (\<exists>p oid q. best_price sd b' = Some p \<and> levels sd b' p = Some (oid # q)
               \<and> orders b oid = Some r)"
  using assms
proof (induction n arbitrary: b)
  case 0
  then show ?case by simp
next
  case (Suc n)
  show ?case
  proof (cases rule: get_best_resting_cases [of sd b n h])
    case empty
    with Suc.prems show ?thesis by simp
  next
    case (raised p x)
    with Suc.prems show ?thesis by simp
  next
    case (found p r1 b1)
    with Suc.prems have pop: "pop_next_active_at_price n sd p h b = Inr (Some r, b')" by simp
    show ?thesis
    proof (cases rule: pop_cases [of sd b p n h])
      case nothing
      with pop show ?thesis by simp
    next
      case (raised q)
      with pop show ?thesis by simp
    next
      case (reaped q)
      with pop show ?thesis by simp
    next
      case f: (found q pre oid q' r2)
      from f(7) pop have e: "r2 = r" "b' = set_level sd p (oid # q') b" by simp_all
      have "best_price sd b' = Some p \<and> levels sd b' p = Some (oid # q')
            \<and> orders b oid = Some r"
        unfolding e(2) using found(1) f(4) e(1) by simp
      then have "\<exists>p oid q. best_price sd b' = Some p \<and> levels sd b' p = Some (oid # q)
               \<and> orders b oid = Some r" by blast
      with f(5,6) e(1) show ?thesis by simp
    qed
  next
    case (retry p b1)
    from pop_frame(1) [where n = n and sd = sd and p = p and h = h and b = b] retry(2) have o: "orders b1 = orders b" by simp
    from Suc.prems retry(3) have "get_best_resting n sd h b1 = Inr (Some r, b')" by simp
    from Suc.IH [OF this] show ?thesis unfolding o .
  qed
qed

section \<open>The lookup on a well-formed side\<close>

lemma lookup_result_frame:
  assumes "lookup_result sd h b found b'"
  shows "orders b' = orders b" "book_symbol b' = book_symbol b"
    "levels (opp_side sd) b' = levels (opp_side sd) b"
    "prices (opp_side sd) b' = prices (opp_side sd) b" "side_ok sd b'"
  using assms by (simp_all add: lookup_result_def)

lemma lookup_result_dropped:
  assumes "lookup_result sd h b found b'"
  shows "\<exists>dropped. priority sd b = dropped @ priority sd b'
           \<and> (\<forall>x\<in>set dropped. \<not> eligible h b x)"
  using assms unfolding lookup_result_def by (elim conjE)

lemma lookup_result_found:
  assumes "lookup_result sd h b (Some m) b'"
  shows "\<exists>p oid q. best_price sd b' = Some p \<and> levels sd b' p = Some (oid # q)
           \<and> orders b oid = Some m \<and> active (h m) \<and> 0 < remaining_qty (h m)"
proof -
  from assms have "case Some m of
           None \<Rightarrow> prices sd b' = []
         | Some r \<Rightarrow>
             (\<exists>p oid q. best_price sd b' = Some p \<and> levels sd b' p = Some (oid # q)
                \<and> orders b oid = Some r \<and> active (h r) \<and> 0 < remaining_qty (h r))"
    unfolding lookup_result_def by (elim conjE)
  then show ?thesis by simp
qed

lemma lookup_result_none:
  assumes "lookup_result sd h b None b'"
  shows "prices sd b' = []"
proof -
  from assms have "case None :: ref option of
           None \<Rightarrow> prices sd b' = []
         | Some r \<Rightarrow>
             (\<exists>p oid q. best_price sd b' = Some p \<and> levels sd b' p = Some (oid # q)
                \<and> orders b oid = Some r \<and> active (h r) \<and> 0 < remaining_qty (h r))"
    unfolding lookup_result_def by (elim conjE)
  then show ?thesis by simp
qed

lemma lookup_resultI:
  assumes "orders b' = orders b" "book_symbol b' = book_symbol b"
    "levels (opp_side sd) b' = levels (opp_side sd) b"
    "prices (opp_side sd) b' = prices (opp_side sd) b" "side_ok sd b'"
    "\<exists>dropped. priority sd b = dropped @ priority sd b'
           \<and> (\<forall>x\<in>set dropped. \<not> eligible h b x)"
    "case found of
           None \<Rightarrow> prices sd b' = []
         | Some r \<Rightarrow>
             (\<exists>p oid q. best_price sd b' = Some p \<and> levels sd b' p = Some (oid # q)
                \<and> orders b oid = Some r \<and> active (h r) \<and> 0 < remaining_qty (h r))"
  shows "lookup_result sd h b found b'"
  unfolding lookup_result_def using assms by (intro conjI)

lemma get_best_resting_spec:
  assumes "side_ok sd b" "get_best_resting n sd h b = Inr (found, b')"
  shows "lookup_result sd h b found b'"
  using assms
proof (induction n arbitrary: b)
  case 0
  then show ?case by simp
next
  case (Suc n)
  note fr = get_best_resting_frame [of n sd h b]
  show ?case
  proof (cases rule: get_best_resting_cases [of sd b n h])
    case empty
    with Suc.prems(2) have e: "found = None" "b' = b" by simp_all
    from empty(1) have "best_first sd b = []"
      by (cases "best_first sd b") (simp_all add: best_price_best_first)
    then have pe: "prices sd b = []" by (metis best_first_length length_0_conv)
    have "\<exists>dropped. priority sd b = dropped @ priority sd b
           \<and> (\<forall>x\<in>set dropped. \<not> eligible h b x)"
      by (intro exI [of _ "[]"]) simp
    with Suc.prems(1) pe show ?thesis unfolding e by (intro lookup_resultI) simp_all
  next
    case (raised p x)
    with Suc.prems(2) show ?thesis by simp
  next
    case (found p r b1)
    from found(3) Suc.prems(2) have e: "found = Some r" "b' = b1" by simp_all
    from found(1) obtain rest where bf: "best_first sd b = p # rest"
      by (cases "best_first sd b") (simp_all add: best_price_best_first)
    note ps = pop_spec [OF Suc.prems(1) bf found(2)]
    note pf = pop_frame [where n = n and sd = sd and p = p and h = h and b = b, unfolded found(2) book_left_simps]
    from get_best_resting_found [OF Suc.prems(2) [unfolded e]]
    have "\<exists>p oid q. best_price sd b1 = Some p \<and> levels sd b1 p = Some (oid # q)
                \<and> orders b oid = Some r \<and> active (h r) \<and> 0 < remaining_qty (h r)"
      by blast
    with pf ps(1,2) show ?thesis unfolding e by (intro lookup_resultI) simp_all
  next
    case (retry p b1)
    from retry(1) obtain rest where bf: "best_first sd b = p # rest"
      by (cases "best_first sd b") (simp_all add: best_price_best_first)
    note ps = pop_spec [OF Suc.prems(1) bf retry(2)]
    note pf = pop_frame [where n = n and sd = sd and p = p and h = h and b = b, unfolded retry(2) book_left_simps]
    from Suc.prems(2) retry(3) have g: "get_best_resting n sd h b1 = Inr (found, b')" by simp
    from Suc.IH [OF ps(1) g] have l: "lookup_result sd h b1 found b'" .
    note lf = lookup_result_frame [OF l]
    from ps(2) obtain d1 where d1: "priority sd b = d1 @ priority sd b1"
      "\<forall>x\<in>set d1. \<not> eligible h b x" by blast
    from lookup_result_dropped [OF l] obtain d2 where d2: "priority sd b1 = d2 @ priority sd b'"
      "\<forall>x\<in>set d2. \<not> eligible h b1 x" by blast
    from d2(2) eligible_orders_cong [OF pf(1), of h] have "\<forall>x\<in>set d2. \<not> eligible h b x"
      by simp
    with d1 d2(1) have "priority sd b = (d1 @ d2) @ priority sd b'
        \<and> (\<forall>x\<in>set (d1 @ d2). \<not> eligible h b x)" by auto
    then have dr: "\<exists>dropped. priority sd b = dropped @ priority sd b'
           \<and> (\<forall>x\<in>set dropped. \<not> eligible h b x)" by (rule exI)
    have fd: "case found of
           None \<Rightarrow> prices sd b' = []
         | Some r \<Rightarrow>
             (\<exists>p oid q. best_price sd b' = Some p \<and> levels sd b' p = Some (oid # q)
                \<and> orders b oid = Some r \<and> active (h r) \<and> 0 < remaining_qty (h r))"
    proof (cases found)
      case None
      with l lookup_result_none show ?thesis by simp
    next
      case (Some r)
      with l lookup_result_found [of sd h b1 r b'] pf(1) show ?thesis by simp
    qed
    from lf pf dr fd show ?thesis by (intro lookup_resultI) simp_all
  qed
qed

text \<open>
  With more free frames than the side has price levels, the lookup on a well-formed
  side returns.
\<close>

lemma get_best_resting_returns:
  assumes "side_ok sd b" "length (prices sd b) < n"
  shows "\<exists>found b'. get_best_resting n sd h b = Inr (found, b')"
  using assms
proof (induction n arbitrary: b)
  case 0
  then show ?case by simp
next
  case (Suc n)
  show ?case
  proof (cases rule: get_best_resting_cases [of sd b n h])
    case empty
    then show ?thesis by blast
  next
    case (raised p x)
    from raised(1) obtain rest where "best_first sd b = p # rest"
      by (cases "best_first sd b") (simp_all add: best_price_best_first)
    then have "length (prices sd b) = Suc (length rest)"
      by (simp add: best_first_length [symmetric])
    then have "prices sd b \<noteq> []" by auto
    with Suc.prems(2) have "0 < n" by (cases "prices sd b") simp_all
    from pop_returns [OF Suc.prems(1) this, of p h] raised(2) show ?thesis by auto
  next
    case (found p r b1)
    then show ?thesis by blast
  next
    case (retry p b1)
    from retry(1) obtain rest where bf: "best_first sd b = p # rest"
      by (cases "best_first sd b") (simp_all add: best_price_best_first)
    note ps = pop_spec [OF Suc.prems(1) bf retry(2)]
    from ps(3) have "best_first sd b1 = rest" by simp
    with bf have "length (prices sd b1) < length (prices sd b)"
      by (metis best_first_length length_Cons lessI)
    with Suc.prems(2) have "length (prices sd b1) < n" by simp
    from Suc.IH [OF ps(1) this] retry(3) show ?thesis by simp
  qed
qed

lemma side_ok_orders_update [simp]: "side_ok sd (b\<lparr>orders := m\<rparr>) = side_ok sd b"
  by (simp add: side_ok_def)

lemma lookup_result_book_ok:
  assumes "lookup_result sd h b found b'" "book_ok b"
  shows "book_ok b'"
proof -
  note f = lookup_result_frame [OF assms(1)]
  from f(3,4) have "side_ok (opp_side sd) b' = side_ok (opp_side sd) b" by (simp add: side_ok_def)
  with f(5) assms(2) show ?thesis by (cases sd) (simp_all add: book_ok_def)
qed

lemma book_ok_side: "book_ok b \<Longrightarrow> side_ok sd b"
  by (cases sd) (simp_all add: book_ok_def)

lemma book_ok_init: "book_ok (OrderBook_init s)"
  by (simp add: book_ok_def side_ok_def OrderBook_init_def prices_def levels_def)

lemma priority_set:
  assumes "side_ok sd b"
  shows "set (priority sd b) = {x. \<exists>p q. levels sd b p = Some q \<and> x \<in> set q}"
proof -
  from assms have d: "dom (levels sd b) = set (best_first sd b)"
    by (simp add: side_ok_def best_first_set)
  show ?thesis
  proof (intro set_eqI iffI)
    fix x assume "x \<in> set (priority sd b)"
    then obtain p where "p \<in> set (best_first sd b)" "x \<in> set (queue_at (levels sd b) p)"
      by (auto simp: priority_def)
    then show "x \<in> {x. \<exists>p q. levels sd b p = Some q \<and> x \<in> set q}"
      by (cases "levels sd b p") (auto simp: queue_at_def)
  next
    fix x assume "x \<in> {x. \<exists>p q. levels sd b p = Some q \<and> x \<in> set q}"
    then obtain p q where pq: "levels sd b p = Some q" "x \<in> set q" by blast
    with d have "p \<in> set (best_first sd b)" by blast
    moreover from pq have "x \<in> set (queue_at (levels sd b) p)" by (simp add: queue_at_def)
    ultimately show "x \<in> set (priority sd b)" by (auto simp: priority_def)
  qed
qed

lemma priority_empty: "prices sd b = [] \<Longrightarrow> priority sd b = []"
  by (cases sd) (simp_all add: priority_def best_first_def prices_def)

lemma lookup_none_again:
  assumes "prices sd b' = []"
  shows "get_best_resting (Suc n) sd h2 b' = Inr (None, b')"
proof -
  from assms have "best_first sd b' = []" by (metis best_first_length length_0_conv)
  then show ?thesis by (simp add: best_price_best_first)
qed

lemma lookup_head_again:
  assumes "best_price sd b' = Some p" "levels sd b' p = Some (oid # q)"
    and "orders b' oid = Some r" "active (h2 r)" "0 < remaining_qty (h2 r)"
  shows "get_best_resting (Suc n) sd h2 b' = Inr (Some r, b')"
proof -
  from assms(3-5) have "eligible h2 b' oid" by (simp add: eligible_def)
  with assms(2,3) have "pop_next_active_at_price n sd p h2 b' = Inr (Some r, set_level sd p (oid # q) b')"
    by (simp add: pop_next_active_at_price_def)
  with set_level_same [OF assms(2)] have "pop_next_active_at_price n sd p h2 b' = Inr (Some r, b')"
    by simp
  with assms(1) show ?thesis by simp
qed

section \<open>The matching loop\<close>

lemma fill_remaining_taker:
  assumes "0 < remaining_qty (h t)" "active (h m)" "0 < remaining_qty (h m)"
  shows "remaining_qty (fill t m h t) \<le> remaining_qty (h t) - 1"
  using assms
  by (cases "t = m") (auto simp: fill_def update_status_def decrement_def trade_quantity_def)

text \<open>
  One pass through the body of the \<open>while\<close> loop, on any store and book: the loop
  raises, or it ends with the trades and store it has, or it makes one trade with the
  eligible order the lookup found and goes on with less remaining for the taker.
\<close>

lemma match_loop_cases [case_names raised stop go]:
  obtains
    (raised) x where "match_loop n gen t h b trs = Some (Inl x)"
  | (stop) b' where "match_loop n gen t h b trs = Some (Inr (trs, h, b'))"
      "b' = b \<or> get_best_resting (n - 1) (opp_side (side (h t))) h b = Inr (None, b')"
  | (go) m b' where "0 < remaining_qty (h t)" "0 < n" "crosses (h t) b = Inr True"
      "get_best_resting (n - 1) (opp_side (side (h t))) h b = Inr (Some m, b')"
      "match_loop n gen t h b trs
         = match_loop n gen t (fill t m h) b' (trs @ [make_trade gen (length trs) t m h b])"
      "remaining_qty (fill t m h t) \<le> remaining_qty (h t) - 1"
proof (cases "0 < remaining_qty (h t)")
  case False
  then have "match_loop n gen t h b trs = Some (Inr (trs, h, b))"
    by (subst match_loop.simps) simp
  then show thesis by (rule stop) simp
next
  case pos: True
  show thesis
  proof (cases "n = 0")
    case True
    with pos have "match_loop n gen t h b trs = Some (Inl (RecursionError, h, b))"
      by (subst match_loop.simps) simp
    then show thesis by (rule raised)
  next
    case n: False
    show thesis
    proof (cases "crosses (h t) b")
      case (Inl e)
      with pos n have "match_loop n gen t h b trs = Some (Inl (e, h, b))"
        by (subst match_loop.simps) simp
      then show thesis by (rule raised)
    next
      case (Inr c)
      show thesis
      proof (cases c)
        case False
        with pos n Inr have "match_loop n gen t h b trs = Some (Inr (trs, h, b))"
          by (subst match_loop.simps) simp
        then show thesis by (rule stop) simp
      next
        case True
        with Inr have cr: "crosses (h t) b = Inr True" by simp
        let ?sd = "opp_side (side (h t))"
        show thesis
        proof (cases "get_best_resting (n - 1) ?sd h b")
          case (Inl x)
          with pos n cr have "match_loop n gen t h b trs = Some (Inl (fst x, h, snd x))"
            by (subst match_loop.simps) simp
          then show thesis by (rule raised)
        next
          case g: (Inr res)
          obtain found b' where res: "res = (found, b')" by (cases res)
          show thesis
          proof (cases found)
            case None
            with pos n cr g res have "match_loop n gen t h b trs = Some (Inr (trs, h, b'))"
              by (subst match_loop.simps) simp
            moreover from g res None
            have "get_best_resting (n - 1) ?sd h b = Inr (None, b')" by simp
            ultimately show thesis by (intro stop [of b']) simp_all
          next
            case (Some m)
            with pos n cr g res have ml:
              "match_loop n gen t h b trs
                 = match_loop n gen t (fill t m h) b' (trs @ [make_trade gen (length trs) t m h b])"
              by (subst match_loop.simps) simp
            from g res Some have g': "get_best_resting (n - 1) ?sd h b = Inr (Some m, b')"
              by simp
            from get_best_resting_found [OF g'] have "active (h m)" "0 < remaining_qty (h m)"
              by simp_all
            with pos have dec: "remaining_qty (fill t m h t) \<le> remaining_qty (h t) - 1"
              by (rule fill_remaining_taker)
            from n have n': "0 < n" by simp
            from pos n' cr g' ml dec show thesis by (rule go)
          qed
        qed
      qed
    qed
  qed
qed

text \<open>The loop returns or raises, on every store and book.\<close>

lemma match_loop_returns: "\<exists>res. match_loop n gen t h b trs = Some res"
proof (induction "nat (remaining_qty (h t))" arbitrary: h b trs rule: less_induct)
  case less
  show ?case
  proof (cases rule: match_loop_cases [of n gen t h b trs])
    case (raised x)
    then show ?thesis by (intro exI)
  next
    case (stop b')
    from stop(1) show ?thesis by (intro exI)
  next
    case (go m b')
    from go(1,6) have "nat (remaining_qty (fill t m h t)) < nat (remaining_qty (h t))" by simp
    from less.hyps [where h = "fill t m h" and b = b'
        and trs = "trs @ [make_trade gen (length trs) t m h b]", OF this]
    obtain res where "match_loop n gen t (fill t m h) b'
        (trs @ [make_trade gen (length trs) t m h b]) = Some res" ..
    with go(5) have "match_loop n gen t h b trs = Some res" by simp
    then show ?thesis by (intro exI)
  qed
qed

lemma match_order_returns: "\<exists>res. match_order n gen t h b = Some res"
proof -
  obtain res where r: "match_loop n gen t h b [] = Some res"
    using match_loop_returns [of n gen t h b "[]"] ..
  show ?thesis
  proof (cases res)
    case (Inl x)
    with r show ?thesis by (simp add: match_order_def)
  next
    case (Inr y)
    obtain trs h1 b1 where y: "y = (trs, h1, b1)" by (cases y)
    show ?thesis
    proof (cases "add_resting_limit (n - 1) t h1 b1")
      case (Inl x)
      with r Inr y show ?thesis by (simp add: match_order_def)
    next
      case a: (Inr z)
      obtain h2 b2 where "z = (h2, b2)" by (cases z)
      with a r Inr y show ?thesis by (simp add: match_order_def)
    qed
  qed
qed

section \<open>A level left emptied and listed\<close>

text \<open>
  Where the side's best price has an empty deque, or none,
  \<open>_pop_next_active_at_price\<close> returns \<open>None\<close> at its first test and changes nothing,
  so \<open>get_best_resting\<close> calls itself on the same book until no frame is free.
\<close>

lemma pop_on_emptied:
  assumes "levels sd b p = Some [] \<or> levels sd b p = None"
  shows "pop_next_active_at_price n sd p h b = Inr (None, b)"
  using assms by (auto simp: pop_next_active_at_price_def)

lemma get_best_resting_on_emptied:
  assumes "best_price sd b = Some p" "levels sd b p = Some [] \<or> levels sd b p = None"
  shows "get_best_resting n sd h b = Inl (RecursionError, b)"
proof (induction n)
  case 0
  show ?case by simp
next
  case (Suc n)
  from pop_on_emptied [OF assms(2)] assms(1) Suc show ?case by simp
qed

lemma match_order_on_emptied:
  assumes "symbol (h t) = book_symbol b" "type (h t) = LIMIT" "0 < remaining_qty (h t)"
    and "crosses (h t) b = Inr True"
    and "best_price (opp_side (side (h t))) b = Some p"
    and "levels (opp_side (side (h t))) b p = Some [] \<or> levels (opp_side (side (h t))) b p = None"
  shows "match_order n gen t h b = Some (Inl (RecursionError, h, b))"
proof -
  have "match_loop n gen t h b [] = Some (Inl (RecursionError, h, b))"
  proof (cases "n = 0")
    case True
    with assms(3) show ?thesis by (subst match_loop.simps) simp
  next
    case False
    with assms(3,4) get_best_resting_on_emptied [OF assms(5,6), of "n - 1" h]
    show ?thesis by (subst match_loop.simps) simp
  qed
  with assms(1,2) show ?thesis by (simp add: match_order_def)
qed

section \<open>Books reached by calls that return\<close>

lemma get_best_resting_book_ok:
  assumes "book_ok b" "get_best_resting n sd h b = Inr (found, b')"
  shows "book_ok b'"
proof -
  from assms(1) have "side_ok sd b" by (rule book_ok_side)
  from get_best_resting_spec [OF this assms(2)] have "lookup_result sd h b found b'" .
  from lookup_result_book_ok [OF this assms(1)] show ?thesis .
qed

lemma add_resting_limit_book_ok:
  assumes "book_ok b" "add_resting_limit n r h b = Inr (h', b')"
  shows "book_ok b'"
proof -
  let ?sd = "side (h r)"
  let ?b0 = "b\<lparr>orders := (orders b)(order_id (h r) \<mapsto> r)\<rparr>"
  from assms(2) obtain p where p: "price_cents (h r) = Some p"
    by (auto simp: add_resting_limit_def split: if_splits option.splits)
  from assms(1) have ok0: "side_ok ?sd ?b0" by (cases ?sd) (simp_all add: book_ok_def)
  from side_ok_append [OF ok0, of p "order_id (h r)"] obtain q where
    q: "levels ?sd (ensure_price_level ?sd p ?b0) p = Some q"
       "side_ok ?sd (set_level ?sd p (q @ [order_id (h r)]) (ensure_price_level ?sd p ?b0))"
    by blast
  from assms(2) p q(1) have b': "b' = set_level ?sd p (q @ [order_id (h r)]) (ensure_price_level ?sd p ?b0)"
    by (auto simp: add_resting_limit_def split: if_splits)
  have opp: "opp_side ?sd \<noteq> ?sd" by (cases ?sd) simp_all
  have "side_ok (opp_side ?sd) b' = side_ok (opp_side ?sd) b"
    using opp unfolding b' by (simp add: side_ok_def)
  with q(2) assms(1) show ?thesis unfolding b' [symmetric] by (cases ?sd) (simp_all add: book_ok_def)
qed

lemma match_loop_book_ok:
  assumes "book_ok b" "match_loop n gen t h b trs = Some (Inr (trs', h', b'))"
  shows "book_ok b'"
  using assms
proof (induction "nat (remaining_qty (h t))" arbitrary: h b trs rule: less_induct)
  case less
  show ?case
  proof (cases rule: match_loop_cases [of n gen t h b trs])
    case (raised x)
    with less.prems(2) show ?thesis by simp
  next
    case (stop b1)
    from stop(1) less.prems(2) have e: "b' = b1" by simp
    from stop(2) show ?thesis
    proof
      assume "b1 = b"
      with e less.prems(1) show ?thesis by simp
    next
      assume "get_best_resting (n - 1) (opp_side (side (h t))) h b = Inr (None, b1)"
      from get_best_resting_book_ok [OF less.prems(1) this] e show ?thesis by simp
    qed
  next
    case (go m b1)
    from go(1,6) have d: "nat (remaining_qty (fill t m h t)) < nat (remaining_qty (h t))" by simp
    from get_best_resting_book_ok [OF less.prems(1) go(4)] have ok1: "book_ok b1" .
    from less.prems(2) go(5)
    have r: "match_loop n gen t (fill t m h) b1 (trs @ [make_trade gen (length trs) t m h b])
      = Some (Inr (trs', h', b'))" by simp
    from less.hyps [where h = "fill t m h" and b = b1
        and trs = "trs @ [make_trade gen (length trs) t m h b]", OF d ok1 r]
    show ?thesis .
  qed
qed

lemma match_order_book_ok:
  assumes "book_ok b" "match_order n gen t h b = Some (Inr (trs', h', b'))"
  shows "book_ok b'"
proof (cases "symbol (h t) \<noteq> book_symbol b \<or> type (h t) \<noteq> LIMIT")
  case True
  then have "match_order n gen t h b = Some (Inr ([], reject t h, b))"
    by (auto simp: match_order_def)
  with assms(2) have "b' = b" by simp
  with assms(1) show ?thesis by simp
next
  case False
  obtain res where r: "match_loop n gen t h b [] = Some res"
    using match_loop_returns [of n gen t h b "[]"] ..
  show ?thesis
  proof (cases res)
    case (Inl x)
    with r False assms(2) show ?thesis by (simp add: match_order_def)
  next
    case (Inr y)
    obtain trs h1 b1 where y: "y = (trs, h1, b1)" by (cases y)
    from r Inr y have ml: "match_loop n gen t h b [] = Some (Inr (trs, h1, b1))" by simp
    from match_loop_book_ok [OF assms(1) ml] have ok1: "book_ok b1" .
    show ?thesis
    proof (cases "0 < remaining_qty (h1 t) \<and> n \<noteq> 0")
      case rest: True
      show ?thesis
      proof (cases "add_resting_limit (n - 1) t h1 b1")
        case (Inl x)
        with ml False rest assms(2) show ?thesis by (simp add: match_order_def)
      next
        case a: (Inr z)
        obtain h2 b2 where z: "z = (h2, b2)" by (cases z)
        with a ml False rest assms(2) have "b' = b2" by (simp add: match_order_def)
        with add_resting_limit_book_ok [OF ok1 a [unfolded z]] show ?thesis by simp
      qed
    next
      case norest: False
      with ml False assms(2) have "b' = b1"
        by (auto simp: match_order_def split: if_splits)
      with ok1 show ?thesis by simp
    qed
  qed
qed

lemma cancel_book [simp]: "snd (snd (cancel oid h b)) = b"
  by (simp add: cancel_def split: option.splits)

lemma exec_book_ok:
  assumes "book_ok b" "returns gen c (h, b)" "exec gen c (h, b) = Some (h', b')"
  shows "book_ok b'"
proof (cases c)
  case (Submit n t)
  with assms(2) obtain y where m: "match_order n gen t h b = Some (Inr y)"
    by (auto split: option.splits sum.splits)
  obtain trs h1 b1 where y: "y = (trs, h1, b1)" by (cases y)
  from assms(3) Submit m y have "b' = b1" by simp
  with match_order_book_ok [OF assms(1) m [unfolded y]] show ?thesis by simp
next
  case (Cancel oid)
  with assms(3) have "b' = snd (snd (cancel oid h b))" by (cases "cancel oid h b") auto
  with assms(1) show ?thesis by simp
next
  case (BestResting n sd)
  with assms(2) obtain y where g: "get_best_resting n sd h b = Inr y"
    by (auto split: sum.splits)
  obtain found b1 where y: "y = (found, b1)" by (cases y)
  from assms(3) BestResting g y have "b' = b1" by simp
  with get_best_resting_book_ok [OF assms(1) g [unfolded y]] show ?thesis by simp
next
  case (AddResting n r)
  with assms(2) obtain y where a: "add_resting_limit n r h b = Inr y"
    by (auto split: sum.splits)
  obtain h1 b1 where y: "y = (h1, b1)" by (cases y)
  from assms(3) AddResting a y have "b' = b1" by simp
  with add_resting_limit_book_ok [OF assms(1) a [unfolded y]] show ?thesis by simp
qed

lemma run_book_ok:
  assumes "book_ok (snd s)" "all_return gen cmds s" "run gen cmds s = Some (h', b')"
  shows "book_ok b'"
  using assms
proof (induction cmds arbitrary: s)
  case Nil
  then show ?case by simp
next
  case (Cons c cs)
  obtain h b where s: "s = (h, b)" by (cases s)
  from Cons.prems(3) obtain s1 where e: "exec gen c s = Some s1" and r: "run gen cs s1 = Some (h', b')"
    by (auto split: option.splits)
  obtain h1 b1 where s1: "s1 = (h1, b1)" by (cases s1)
  from Cons.prems(2) e have ret: "returns gen c s" and ar: "all_return gen cs s1" by simp_all
  from Cons.prems(1) s have "book_ok b" by simp
  from exec_book_ok [OF this ret [unfolded s] e [unfolded s s1]] have "book_ok (snd s1)"
    unfolding s1 by simp
  from Cons.IH [OF this ar r] show ?case .
qed

text \<open>
  Every state a caller reaches from the empty book by calls that all return has a
  well-formed book.
\<close>

lemma returning_calls_book_ok:
  assumes "all_return gen cmds (h0, OrderBook_init s)"
    and "run gen cmds (h0, OrderBook_init s) = Some (h, b)"
  shows "book_ok b"
  using run_book_ok [of "(h0, OrderBook_init s)" gen cmds h b] assms book_ok_init by simp

section \<open>Rejection\<close>

text \<open>
  C4. For every store, book and taker whose symbol differs from the book's or whose
  type is MARKET, and with any number of free frames, \<open>match_order\<close> returns (no
  exception, no divergence) the empty trade list; the only change to the store is that
  the taker's status is REJECTED and its active flag false; the book (order map, both
  ladders, both price lists) is the book it was given.
\<close>

theorem match_order_rejects:
  assumes "symbol (h t) \<noteq> book_symbol b \<or> type (h t) = MARKET"
  shows "\<exists>h'. match_order n gen t h b = Some (Inr ([], h', b))
           \<and> status (h' t) = REJECTED \<and> \<not> active (h' t)
           \<and> h' = h(t := (h t)\<lparr>status := REJECTED, active := False\<rparr>)"
  using assms by (auto simp: match_order_def reject_def)

theorem match_order_rejects_witness:
  "symbol (sample_heap 3) \<noteq> book_symbol (OrderBook_init ''AAPL'')
   \<and> (\<exists>h'. match_order 10 sample_gen 3 sample_heap (OrderBook_init ''AAPL'')
               = Some (Inr ([], h', OrderBook_init ''AAPL''))
            \<and> status (h' 3) = REJECTED \<and> \<not> active (h' 3))"
proof -
  have ne: "symbol (sample_heap 3) \<noteq> book_symbol (OrderBook_init ''AAPL'')"
    by (simp add: sample_defs OrderBook_init_def)
  from match_order_rejects [of sample_heap 3 "OrderBook_init ''AAPL''" 10 sample_gen] ne
  show ?thesis by blast
qed

section \<open>Cancellation\<close>




section \<open>Depth snapshot\<close>

text \<open>
  C10. There is a reachable state in which \<open>snapshot_l2\<close> reports a level of quantity
  0 that takes a place of the depth limit: the sells at 100 and at 200 rest, the sell at
  100 is cancelled, and the snapshot of depth 1 is the stale level \<open>(100, 0)\<close> alone,
  the live level at 200 being cut off.
\<close>

theorem snapshot_reports_stale_level:
  "(case run sample_gen [Submit 10 0, Submit 10 1, Cancel ''a'']
           (sample_heap, OrderBook_init ''AAPL'') of
      None \<Rightarrow> False
    | Some (h, b) \<Rightarrow>
        asks_out (snapshot_l2 1 h b) = [(100, 0)]
        \<and> asks_out (snapshot_l2 2 h b) = [(100, 0), (200, 5)])"
  by (simp add: eval_defs)

text \<open>
  C8 at depth 0: with one buy of 3 at 100 resting, \<open>snapshot_l2(0)\<close> returns that bid
  level, one level where the depth allows none (the slice \<open>bid_prices[-0:]\<close> is the
  whole list); the ask side of the same call is empty.
\<close>

theorem snapshot_depth_zero_returns_bids:
  "(case run sample_gen [Submit 10 4, Submit 10 1] (sample_heap, OrderBook_init ''AAPL'') of
      None \<Rightarrow> False
    | Some (h, b) \<Rightarrow>
        bids_out (snapshot_l2 0 h b) = [(100, 3)]
        \<and> asks_out (snapshot_l2 0 h b) = []
        \<and> ask_prices b = [200])"
  by (simp add: eval_defs)

section \<open>Price bound\<close>

text \<open>
  C1 at a stale best level: the sells at 100 and 200 rest and the sell at 100 is
  cancelled, so the best ask the crossing test reads is still 100; the LIMIT buy of 5
  with limit 150 passes the test and is matched with the sell at 200: one trade, at
  price 200, above the taker's limit.
\<close>

theorem stale_best_price_breaks_limit:
  "(case run sample_gen [Submit 10 0, Submit 10 1, Cancel ''a'']
           (sample_heap, OrderBook_init ''AAPL'') of
      None \<Rightarrow> False
    | Some (h, b) \<Rightarrow>
        side (h 2) = BUY \<and> type (h 2) = LIMIT \<and> price_cents (h 2) = Some 150
        \<and> status (h 2) = NEW \<and> best_ask b = Some 100
        \<and> (case match_order 10 sample_gen 2 h b of
              Some (Inr (trades, h', b')) \<Rightarrow>
                map trade_price_cents trades = [Some 200]
                \<and> map trade_qty trades = [5]
                \<and> map maker_order_id trades = [''b'']
                \<and> map taker_order_id trades = [''t'']
            | _ \<Rightarrow> False))"
  by (simp add: eval_defs)

section \<open>Conservation\<close>


section \<open>Order status\<close>

text \<open>
  C3 where a cancelled order is rested again: the sell at 100 rests and is cancelled,
  so its status is CANCELED and it is inactive. \<open>add_resting_limit\<close> of that order
  returns normally and sets its status to RESTING: the status CANCELED is left, and the
  order is RESTING with its active flag false.
\<close>

theorem add_resting_limit_leaves_canceled:
  "(case run sample_gen [Submit 10 0, Cancel ''a''] (sample_heap, OrderBook_init ''AAPL'') of
      None \<Rightarrow> False
    | Some (h, b) \<Rightarrow>
        status (h 0) = CANCELED \<and> \<not> active (h 0) \<and> remaining_qty (h 0) = 0
        \<and> (case add_resting_limit 10 0 h b of
              Inl x \<Rightarrow> False
            | Inr (h', b') \<Rightarrow>
                status (h' 0) = RESTING \<and> \<not> active (h' 0) \<and> remaining_qty (h' 0) = 0
                \<and> asks b' 100 = Some [''a'', ''a'']))"
  by (simp add: eval_defs)

section \<open>Price-time priority\<close>


section \<open>The lookup\<close>

text \<open>
  A lookup that raises at the call of \<open>_cleanup_level_if_empty\<close> leaves the level
  emptied and listed, and every later lookup on the side then raises.
\<close>

lemma emptied_level_after_raise:
  "\<exists>h b b'.
     run sample_gen [Submit 10 0, Submit 10 1, Cancel ''a'']
       (sample_heap, OrderBook_init ''AAPL'') = Some (h, b)
     \<and> book_ok b \<and> ask_prices b = [100, 200]
     \<and> asks b 100 = Some [''a''] \<and> asks b 200 = Some [''b'']
     \<and> get_best_resting 1 SELL h b = Inl (RecursionError, b')
     \<and> ask_prices b' = [100, 200] \<and> asks b' 100 = Some [] \<and> asks b' 200 = Some [''b'']
     \<and> eligible h b' ''b''
     \<and> (\<forall>n. get_best_resting n SELL h b' = Inl (RecursionError, b'))"
proof -
  have e: "case run sample_gen [Submit 10 0, Submit 10 1, Cancel ''a'']
                  (sample_heap, OrderBook_init ''AAPL'') of
             None \<Rightarrow> False
           | Some (h, b) \<Rightarrow>
               bid_prices b = [] \<and> bids b = Map.empty
               \<and> ask_prices b = [100, 200] \<and> dom (asks b) = {200, 100}
               \<and> asks b 100 = Some [''a''] \<and> asks b 200 = Some [''b'']
               \<and> (case get_best_resting 1 SELL h b of
                     Inr y \<Rightarrow> False
                   | Inl x \<Rightarrow>
                       fst x = RecursionError
                       \<and> ask_prices (snd x) = [100, 200] \<and> asks (snd x) 100 = Some []
                       \<and> asks (snd x) 200 = Some [''b''] \<and> eligible h (snd x) ''b'')"
    by (simp add: eval_defs)
  then obtain h b where r:
    "run sample_gen [Submit 10 0, Submit 10 1, Cancel ''a''] (sample_heap, OrderBook_init ''AAPL'')
       = Some (h, b)"
    by (auto split: option.splits)
  with e have s: "bid_prices b = []" "bids b = Map.empty"
    "ask_prices b = [100, 200]" "dom (asks b) = {200, 100}"
    "asks b 100 = Some [''a'']" "asks b 200 = Some [''b'']"
    and c: "case get_best_resting 1 SELL h b of
                     Inr y \<Rightarrow> False
                   | Inl x \<Rightarrow>
                       fst x = RecursionError
                       \<and> ask_prices (snd x) = [100, 200] \<and> asks (snd x) 100 = Some []
                       \<and> asks (snd x) 200 = Some [''b''] \<and> eligible h (snd x) ''b''"
    by simp_all
  from s have ok: "book_ok b"
    by (simp add: book_ok_def side_ok_def prices_def levels_def insert_commute)
  from c obtain b' where g: "get_best_resting 1 SELL h b = Inl (RecursionError, b')"
    and s': "ask_prices b' = [100, 200]" "asks b' 100 = Some []"
      "asks b' 200 = Some [''b'']" "eligible h b' ''b''"
    by (cases "get_best_resting 1 SELL h b") auto
  from s' have bp: "best_price SELL b' = Some 100"
    and lv: "levels SELL b' 100 = Some [] \<or> levels SELL b' 100 = None"
    by (simp_all add: best_price_def best_ask_def levels_def)
  have "\<forall>n. get_best_resting n SELL h b' = Inl (RecursionError, b')"
  proof
    fix n
    from bp lv show "get_best_resting n SELL h b' = Inl (RecursionError, b')"
      by (rule get_best_resting_on_emptied)
  qed
  with r ok s(3,5,6) g s' show ?thesis by (intro exI conjI)
qed

text \<open>
  C7 as stated fails where the call stack runs out. Two sells rest at 100 and 200 and the
  one at 100 is cancelled; the book is well-formed. \<open>get_best_resting\<close> for the sell
  side, called with one frame free in its body, raises \<open>RecursionError\<close>: it pops the
  cancelled id, and the call of \<open>_cleanup_level_if_empty\<close> finds no frame. It returns
  neither an order nor none, and it leaves the price 100 listed with an empty deque.
  On the book it leaves, a later lookup on the side raises too, also with 1000 free
  frames, although the sell at 200 is eligible and queued.
\<close>

theorem lookup_raises_and_leaves_emptied_level:
  "(case run sample_gen [Submit 10 0, Submit 10 1, Cancel ''a'']
           (sample_heap, OrderBook_init ''AAPL'') of
      None \<Rightarrow> False
    | Some (h, b) \<Rightarrow>
        book_ok b \<and> ask_prices b = [100, 200]
        \<and> asks b 100 = Some [''a''] \<and> asks b 200 = Some [''b'']
        \<and> (case get_best_resting 1 SELL h b of
              Inr y \<Rightarrow> False
            | Inl x \<Rightarrow>
                fst x = RecursionError
                \<and> ask_prices (snd x) = [100, 200] \<and> asks (snd x) 100 = Some []
                \<and> asks (snd x) 200 = Some [''b''] \<and> eligible h (snd x) ''b''
                \<and> get_best_resting 1000 SELL h (snd x) = Inl (RecursionError, snd x)))"
proof -
  from emptied_level_after_raise obtain h b b' where
    r: "run sample_gen [Submit 10 0, Submit 10 1, Cancel ''a'']
          (sample_heap, OrderBook_init ''AAPL'') = Some (h, b)"
    and s: "book_ok b" "ask_prices b = [100, 200]"
      "asks b 100 = Some [''a'']" "asks b 200 = Some [''b'']"
    and g: "get_best_resting 1 SELL h b = Inl (RecursionError, b')"
    and s': "ask_prices b' = [100, 200]" "asks b' 100 = Some []"
      "asks b' 200 = Some [''b'']" "eligible h b' ''b''"
    and a: "\<forall>n. get_best_resting n SELL h b' = Inl (RecursionError, b')"
    by blast
  from a have a': "get_best_resting 1000 SELL h b' = Inl (RecursionError, b')" ..
  show ?thesis
    by (simp only: r g s s' a' option.case prod.case sum.case fst_conv snd_conv simp_thms)
qed

text \<open>
  C7, amended. For every store, book, side and number \<open>n\<close> of free frames,
  \<open>get_best_resting\<close> returns or raises, and the book it leaves either way has the
  order map, the symbol and the other side of the book it was given, and each deque of
  the side has lost only a run of ineligible ids at its head: no eligible order is
  removed. The only exception it raises is \<open>RecursionError\<close>. An order it returns is
  active with positive remaining quantity and its id is still the head of the deque of
  the best price, and for as long as that order stays eligible (as after a partial
  fill) every later call with a free frame returns it again and leaves the book as it is.
  On a well-formed book, as is the book of every state reached from the empty book by
  calls that all returned, and with more free frames than the side has price levels, it
  returns: the book it leaves is well-formed (a price is listed exactly when it has a
  deque, and no deque is empty), what it took out is a run \<open>dropped\<close> of ineligible
  ids at the front of the side's priority order, it returns none only when the side is
  left without price levels and no id queued on it was eligible, and calling it again
  gives the same answer and the same book.
\<close>

theorem get_best_resting_contract:
  "orders (book_left (get_best_resting n sd h b)) = orders b
   \<and> book_symbol (book_left (get_best_resting n sd h b)) = book_symbol b
   \<and> levels (opp_side sd) (book_left (get_best_resting n sd h b)) = levels (opp_side sd) b
   \<and> prices (opp_side sd) (book_left (get_best_resting n sd h b)) = prices (opp_side sd) b
   \<and> only_stale_dropped sd h b (book_left (get_best_resting n sd h b))
   \<and> (\<forall>e b'. get_best_resting n sd h b = Inl (e, b') \<longrightarrow> e = RecursionError)
   \<and> (\<forall>r b'. get_best_resting n sd h b = Inr (Some r, b') \<longrightarrow>
         active (h r) \<and> 0 < remaining_qty (h r)
         \<and> (\<exists>p oid q. best_price sd b' = Some p \<and> levels sd b' p = Some (oid # q)
               \<and> orders b' oid = Some r)
         \<and> (\<forall>h2 k. active (h2 r) \<and> 0 < remaining_qty (h2 r)
               \<longrightarrow> get_best_resting (Suc k) sd h2 b' = Inr (Some r, b')))
   \<and> (book_ok b \<and> length (prices sd b) < n \<longrightarrow>
         (\<exists>found b' dropped.
            get_best_resting n sd h b = Inr (found, b')
            \<and> book_ok b'
            \<and> priority sd b = dropped @ priority sd b'
            \<and> (\<forall>x\<in>set dropped. \<not> eligible h b x)
            \<and> (found = None \<longrightarrow>
                  prices sd b' = []
                  \<and> (\<forall>p q x. levels sd b p = Some q \<and> x \<in> set q \<longrightarrow> \<not> eligible h b x))
            \<and> get_best_resting n sd h b' = Inr (found, b')))"
proof -
  let ?b' = "book_left (get_best_resting n sd h b)"
  note f = get_best_resting_frame [of n sd h b]
  from f have f1: "orders ?b' = orders b" by (elim conjE)
  from f have f2: "book_symbol ?b' = book_symbol b" by (elim conjE)
  from f have f3: "levels (opp_side sd) ?b' = levels (opp_side sd) b" by (elim conjE)
  from f have f4: "prices (opp_side sd) ?b' = prices (opp_side sd) b" by (elim conjE)
  from f have f5: "only_stale_dropped sd h b ?b'" by (elim conjE)
  have err: "\<forall>e b'. get_best_resting n sd h b = Inl (e, b') \<longrightarrow> e = RecursionError"
    by (intro allI impI) (rule get_best_resting_error)
  have ret: "\<forall>r b'. get_best_resting n sd h b = Inr (Some r, b') \<longrightarrow>
         active (h r) \<and> 0 < remaining_qty (h r)
         \<and> (\<exists>p oid q. best_price sd b' = Some p \<and> levels sd b' p = Some (oid # q)
               \<and> orders b' oid = Some r)
         \<and> (\<forall>h2 k. active (h2 r) \<and> 0 < remaining_qty (h2 r)
               \<longrightarrow> get_best_resting (Suc k) sd h2 b' = Inr (Some r, b'))"
  proof (intro allI impI)
    fix r b' assume g: "get_best_resting n sd h b = Inr (Some r, b')"
    from f1 g have o: "orders b' = orders b" by simp
    from get_best_resting_found [OF g] obtain p oid q where
      a: "active (h r)" "0 < remaining_qty (h r)"
      and hd: "best_price sd b' = Some p" "levels sd b' p = Some (oid # q)"
        "orders b' oid = Some r"
      unfolding o by blast
    from hd have ex: "\<exists>p oid q. best_price sd b' = Some p \<and> levels sd b' p = Some (oid # q)
               \<and> orders b' oid = Some r" by blast
    have later: "\<forall>h2 k. active (h2 r) \<and> 0 < remaining_qty (h2 r)
               \<longrightarrow> get_best_resting (Suc k) sd h2 b' = Inr (Some r, b')"
    proof (intro allI impI)
      fix h2 :: heap and k assume "active (h2 r) \<and> 0 < remaining_qty (h2 r)"
      then have "active (h2 r)" "0 < remaining_qty (h2 r)" by simp_all
      with hd show "get_best_resting (Suc k) sd h2 b' = Inr (Some r, b')"
        by (rule lookup_head_again)
    qed
    from a ex later
    show "active (h r) \<and> 0 < remaining_qty (h r)
         \<and> (\<exists>p oid q. best_price sd b' = Some p \<and> levels sd b' p = Some (oid # q)
               \<and> orders b' oid = Some r)
         \<and> (\<forall>h2 k. active (h2 r) \<and> 0 < remaining_qty (h2 r)
               \<longrightarrow> get_best_resting (Suc k) sd h2 b' = Inr (Some r, b'))"
      by (intro conjI)
  qed
  have wf: "book_ok b \<and> length (prices sd b) < n \<longrightarrow>
         (\<exists>found b' dropped.
            get_best_resting n sd h b = Inr (found, b')
            \<and> book_ok b'
            \<and> priority sd b = dropped @ priority sd b'
            \<and> (\<forall>x\<in>set dropped. \<not> eligible h b x)
            \<and> (found = None \<longrightarrow>
                  prices sd b' = []
                  \<and> (\<forall>p q x. levels sd b p = Some q \<and> x \<in> set q \<longrightarrow> \<not> eligible h b x))
            \<and> get_best_resting n sd h b' = Inr (found, b'))"
  proof (intro impI)
    assume "book_ok b \<and> length (prices sd b) < n"
    then have ok: "book_ok b" and len: "length (prices sd b) < n" by simp_all
    from ok have sok: "side_ok sd b" by (rule book_ok_side)
    from len obtain k where n: "n = Suc k" by (cases n) simp_all
    from get_best_resting_returns [OF sok len, of h] obtain found b' where
      g: "get_best_resting n sd h b = Inr (found, b')" by blast
    from get_best_resting_spec [OF sok g] have l: "lookup_result sd h b found b'" .
    from lookup_result_book_ok [OF l ok] have ok': "book_ok b'" .
    from lookup_result_dropped [OF l] obtain dropped where
      dr: "priority sd b = dropped @ priority sd b'" "\<forall>x\<in>set dropped. \<not> eligible h b x"
      by blast
    have none: "found = None \<longrightarrow>
                  prices sd b' = []
                  \<and> (\<forall>p q x. levels sd b p = Some q \<and> x \<in> set q \<longrightarrow> \<not> eligible h b x)"
    proof (intro impI)
      assume fn: "found = None"
      with l have e: "prices sd b' = []" by (simp add: lookup_result_none)
      with dr priority_empty [of sd b'] have "\<forall>x\<in>set (priority sd b). \<not> eligible h b x"
        by simp
      then have "\<forall>p q x. levels sd b p = Some q \<and> x \<in> set q \<longrightarrow> \<not> eligible h b x"
        unfolding priority_set [OF sok] by blast
      with e show "prices sd b' = []
                  \<and> (\<forall>p q x. levels sd b p = Some q \<and> x \<in> set q \<longrightarrow> \<not> eligible h b x)"
        by (intro conjI)
    qed
    have again: "get_best_resting n sd h b' = Inr (found, b')"
    proof (cases found)
      case None
      with l have "prices sd b' = []" by (simp add: lookup_result_none)
      from lookup_none_again [OF this, of k h] None n show ?thesis by simp
    next
      case (Some r)
      with l lookup_result_found [of sd h b r b'] obtain p oid q where
        "best_price sd b' = Some p" "levels sd b' p = Some (oid # q)"
        "orders b oid = Some r" "active (h r)" "0 < remaining_qty (h r)" by blast
      moreover from l have "orders b' = orders b" by (rule lookup_result_frame)
      ultimately have "get_best_resting (Suc k) sd h b' = Inr (Some r, b')"
        by (intro lookup_head_again [of sd b' p oid q r h k]) simp_all
      with Some n show ?thesis by simp
    qed
    from g ok' dr none again
    show "\<exists>found b' dropped.
            get_best_resting n sd h b = Inr (found, b')
            \<and> book_ok b'
            \<and> priority sd b = dropped @ priority sd b'
            \<and> (\<forall>x\<in>set dropped. \<not> eligible h b x)
            \<and> (found = None \<longrightarrow>
                  prices sd b' = []
                  \<and> (\<forall>p q x. levels sd b p = Some q \<and> x \<in> set q \<longrightarrow> \<not> eligible h b x))
            \<and> get_best_resting n sd h b' = Inr (found, b')"
      by (intro exI conjI)
  qed
  from f1 f2 f3 f4 f5 err ret wf show ?thesis by (intro conjI)
qed

theorem get_best_resting_contract_witness:
  "\<exists>h b found b'.
     all_return sample_gen [Submit 10 0, Submit 10 1, Cancel ''a'']
       (sample_heap, OrderBook_init ''AAPL'')
     \<and> run sample_gen [Submit 10 0, Submit 10 1, Cancel ''a''] (sample_heap, OrderBook_init ''AAPL'')
       = Some (h, b)
     \<and> book_ok b \<and> length (prices SELL b) < 3
     \<and> ask_prices b = [100, 200] \<and> asks b 100 = Some [''a'']
     \<and> get_best_resting 3 SELL h b = Inr (found, b')
     \<and> found = Some 1 \<and> ask_prices b' = [200] \<and> asks b' 100 = None
     \<and> asks b' 200 = Some [''b'']
     \<and> book_ok b' \<and> get_best_resting 3 SELL h b' = Inr (found, b')"
proof -
  have e: "case run sample_gen [Submit 10 0, Submit 10 1, Cancel ''a'']
                  (sample_heap, OrderBook_init ''AAPL'') of
             None \<Rightarrow> False
           | Some (h, b) \<Rightarrow>
               bid_prices b = [] \<and> bids b = Map.empty
               \<and> ask_prices b = [100, 200] \<and> dom (asks b) = {200, 100}
               \<and> asks b 100 = Some [''a''] \<and> asks b 200 = Some [''b'']
               \<and> (case get_best_resting 3 SELL h b of
                     Inl x \<Rightarrow> False
                   | Inr y \<Rightarrow>
                       fst y = Some 1 \<and> ask_prices (snd y) = [200] \<and> asks (snd y) 100 = None
                       \<and> asks (snd y) 200 = Some [''b''])"
    by (simp add: eval_defs)
  then obtain h b where r:
    "run sample_gen [Submit 10 0, Submit 10 1, Cancel ''a''] (sample_heap, OrderBook_init ''AAPL'')
       = Some (h, b)"
    by (auto split: option.splits)
  with e have s: "bid_prices b = []" "bids b = Map.empty"
    "ask_prices b = [100, 200]" "dom (asks b) = {200, 100}"
    "asks b 100 = Some [''a'']" "asks b 200 = Some [''b'']"
    and c: "case get_best_resting 3 SELL h b of
                     Inl x \<Rightarrow> False
                   | Inr y \<Rightarrow>
                       fst y = Some 1 \<and> ask_prices (snd y) = [200] \<and> asks (snd y) 100 = None
                       \<and> asks (snd y) 200 = Some [''b'']"
    by simp_all
  have ar: "all_return sample_gen [Submit 10 0, Submit 10 1, Cancel ''a'']
              (sample_heap, OrderBook_init ''AAPL'')"
    by (simp add: eval_defs)
  from ar r have ok: "book_ok b" by (rule returning_calls_book_ok)
  from s have len: "length (prices SELL b) < 3" by (simp add: prices_def)
  from get_best_resting_contract [of 3 SELL h b] ok len obtain found b' where
    g: "get_best_resting 3 SELL h b = Inr (found, b')" "book_ok b'"
       "get_best_resting 3 SELL h b' = Inr (found, b')"
    by blast
  from c g(1) have "found = Some 1" "ask_prices b' = [200]" "asks b' 100 = None"
      "asks b' 200 = Some [''b'']"
    by simp_all
  with ar r ok len s(3,5) g show ?thesis by (intro exI conjI)
qed

section \<open>Termination\<close>

lemma retry_shrinks:
  assumes "side_ok sd b" "best_price sd b = Some p"
    and "pop_next_active_at_price k sd p h b = Inr (None, b1)"
  shows "side_ok sd b1 \<and> length (prices sd b1) < length (prices sd b)"
proof -
  from assms(2) obtain rest where bf: "best_first sd b = p # rest"
    by (cases "best_first sd b") (simp_all add: best_price_best_first)
  note ps = pop_spec [OF assms(1) bf assms(3)]
  from ps(3) have "best_first sd b1 = rest" by simp
  with bf have "length (prices sd b1) < length (prices sd b)"
    by (metis best_first_length length_Cons lessI)
  with ps(1) show ?thesis by (intro conjI)
qed

text \<open>
  On a book left with an emptied level at the best price, the retry of the lookup runs
  on the same book, and lookups and crossing orders raise.
\<close>

lemma retry_on_emptied_level:
  "\<exists>h b.
     run sample_gen [Submit 10 0, Submit 10 1, Cancel ''a'', Submit 2 2]
       (sample_heap, OrderBook_init ''AAPL'') = Some (h, b)
     \<and> ask_prices b = [100, 200] \<and> asks b 100 = Some [] \<and> asks b 200 = Some [''b'']
     \<and> best_price SELL b = Some 100
     \<and> (\<forall>k. pop_next_active_at_price k SELL 100 h b = Inr (None, b))
     \<and> (\<forall>k. get_best_resting (Suc k) SELL h b = get_best_resting k SELL h b)
     \<and> (\<forall>n. get_best_resting n SELL h b = Inl (RecursionError, b))
     \<and> (\<forall>n. match_order n sample_gen 2 h b = Some (Inl (RecursionError, h, b)))"
proof -
  have e: "case run sample_gen [Submit 10 0, Submit 10 1, Cancel ''a'', Submit 2 2]
                  (sample_heap, OrderBook_init ''AAPL'') of
             None \<Rightarrow> False
           | Some (h, b) \<Rightarrow>
               ask_prices b = [100, 200] \<and> asks b 100 = Some [] \<and> asks b 200 = Some [''b'']
               \<and> symbol (h 2) = book_symbol b \<and> type (h 2) = LIMIT
               \<and> 0 < remaining_qty (h 2) \<and> side (h 2) = BUY
               \<and> crosses (h 2) b = Inr True"
    by (simp add: eval_defs)
  then obtain h b where r:
    "run sample_gen [Submit 10 0, Submit 10 1, Cancel ''a'', Submit 2 2]
       (sample_heap, OrderBook_init ''AAPL'') = Some (h, b)"
    by (auto split: option.splits)
  with e have s: "ask_prices b = [100, 200]" "asks b 100 = Some []"
    "asks b 200 = Some [''b'']"
    and t: "symbol (h 2) = book_symbol b" "type (h 2) = LIMIT" "0 < remaining_qty (h 2)"
      "side (h 2) = BUY" "crosses (h 2) b = Inr True"
    by simp_all
  from s have bp: "best_price SELL b = Some 100"
    and lv: "levels SELL b 100 = Some [] \<or> levels SELL b 100 = None"
    by (simp_all add: best_price_def best_ask_def levels_def)
  have pop: "\<forall>k. pop_next_active_at_price k SELL 100 h b = Inr (None, b)"
  proof
    fix k
    from lv show "pop_next_active_at_price k SELL 100 h b = Inr (None, b)"
      by (rule pop_on_emptied)
  qed
  have retry: "\<forall>k. get_best_resting (Suc k) SELL h b = get_best_resting k SELL h b"
  proof
    fix k
    from bp pop show "get_best_resting (Suc k) SELL h b = get_best_resting k SELL h b"
      by simp
  qed
  have look: "\<forall>n. get_best_resting n SELL h b = Inl (RecursionError, b)"
  proof
    fix n
    from bp lv show "get_best_resting n SELL h b = Inl (RecursionError, b)"
      by (rule get_best_resting_on_emptied)
  qed
  from t(4) have o: "opp_side (side (h 2)) = SELL" by (simp add: opp_side_def)
  have mo: "\<forall>n. match_order n sample_gen 2 h b = Some (Inl (RecursionError, h, b))"
  proof
    fix n
    from bp lv have "best_price (opp_side (side (h 2))) b = Some 100"
      "levels (opp_side (side (h 2))) b 100 = Some []
         \<or> levels (opp_side (side (h 2))) b 100 = None"
      unfolding o by simp_all
    with t(1,2,3,5) show "match_order n sample_gen 2 h b = Some (Inl (RecursionError, h, b))"
      by (rule match_order_on_emptied)
  qed
  from r s bp pop retry look mo show ?thesis by (intro exI conjI)
qed

text \<open>
  C9 as stated fails on a book whose best price has an empty deque, and a caller can
  reach one. Two sells rest at 100 and 200 and the one at 100 is cancelled; a buy of 5
  with limit 150 is then submitted with two frames free in the body of
  \<open>match_order\<close>, and the lookup raises \<open>RecursionError\<close> at the call of
  \<open>_cleanup_level_if_empty\<close>, leaving the price 100 listed with an empty deque. On
  that book \<open>_pop_next_active_at_price\<close> at the best price returns \<open>None\<close> and
  changes nothing, so the retry of \<open>get_best_resting\<close> runs on the same book: the number
  of price levels does not decrease. The recursion ends only when no frame is free: a
  lookup on the side, and \<open>match_order\<close> of the buy, raise \<open>RecursionError\<close>,
  also with 1000 free frames.
\<close>

theorem retry_on_emptied_level_does_not_shrink:
  "(case run sample_gen [Submit 10 0, Submit 10 1, Cancel ''a'', Submit 2 2]
           (sample_heap, OrderBook_init ''AAPL'') of
      None \<Rightarrow> False
    | Some (h, b) \<Rightarrow>
        ask_prices b = [100, 200] \<and> asks b 100 = Some [] \<and> asks b 200 = Some [''b'']
        \<and> best_price SELL b = Some 100
        \<and> pop_next_active_at_price 999 SELL 100 h b = Inr (None, b)
        \<and> get_best_resting (Suc 999) SELL h b = get_best_resting 999 SELL h b
        \<and> get_best_resting 1000 SELL h b = Inl (RecursionError, b)
        \<and> match_order 1000 sample_gen 2 h b = Some (Inl (RecursionError, h, b)))"
proof -
  from retry_on_emptied_level obtain h b where
    r: "run sample_gen [Submit 10 0, Submit 10 1, Cancel ''a'', Submit 2 2]
          (sample_heap, OrderBook_init ''AAPL'') = Some (h, b)"
    and s: "ask_prices b = [100, 200]" "asks b 100 = Some []" "asks b 200 = Some [''b'']"
      "best_price SELL b = Some 100"
    and a: "\<forall>k. pop_next_active_at_price k SELL 100 h b = Inr (None, b)"
      "\<forall>k. get_best_resting (Suc k) SELL h b = get_best_resting k SELL h b"
      "\<forall>n. get_best_resting n SELL h b = Inl (RecursionError, b)"
      "\<forall>n. match_order n sample_gen 2 h b = Some (Inl (RecursionError, h, b))"
    by blast
  from a(1) have a1: "pop_next_active_at_price 999 SELL 100 h b = Inr (None, b)" ..
  from a(2) have a2: "get_best_resting (Suc 999) SELL h b = get_best_resting 999 SELL h b" ..
  from a(3) have a3: "get_best_resting 1000 SELL h b = Inl (RecursionError, b)" ..
  from a(3) have a3': "get_best_resting 999 SELL h b = Inl (RecursionError, b)" ..
  from a(4) have a4: "match_order 1000 sample_gen 2 h b = Some (Inl (RecursionError, h, b))" ..
  show ?thesis
    by (simp only: r s a1 a2 a3 a3' a4 option.case prod.case simp_thms)
qed

text \<open>
  C9, amended. For every store, book, taker and number \<open>n\<close> of free frames,
  \<open>match_order\<close> returns or raises, and so does its loop from any list of trades.
  One pass of the loop raises, or ends the loop with the trades and the store it has, or
  goes on with at least 1 less remaining quantity for the taker, which is positive: the
  taker's remaining quantity bounds the number of passes. A lookup at the best price
  that finds nothing, after which \<open>get_best_resting\<close> calls itself, leaves one frame
  less to the call it makes: the free frames bound the recursion. The number of price
  levels decreases at such a retry where the side is well-formed (its price list is
  ascending without duplicates and lists exactly the prices that have a deque, none of
  them empty), and the side is then left well-formed.
\<close>

theorem match_order_terminates:
  "(\<exists>res. match_order n gen t h b = Some res)
   \<and> (\<exists>res. match_loop n gen t h b trs = Some res)
   \<and> ((\<exists>x. match_loop n gen t h b trs = Some (Inl x))
       \<or> (\<exists>b2. match_loop n gen t h b trs = Some (Inr (trs, h, b2)))
       \<or> (\<exists>m b2. 0 < remaining_qty (h t)
             \<and> remaining_qty (fill t m h t) \<le> remaining_qty (h t) - 1
             \<and> match_loop n gen t h b trs
                 = match_loop n gen t (fill t m h) b2
                     (trs @ [make_trade gen (length trs) t m h b])))
   \<and> (\<forall>p b1. best_price sd b = Some p
               \<and> pop_next_active_at_price k sd p h b = Inr (None, b1) \<longrightarrow>
         get_best_resting (Suc k) sd h b = get_best_resting k sd h b1
         \<and> (side_ok sd b \<longrightarrow>
               side_ok sd b1 \<and> length (prices sd b1) < length (prices sd b)))"
proof -
  have ret: "\<exists>res. match_order n gen t h b = Some res" by (rule match_order_returns)
  have lret: "\<exists>res. match_loop n gen t h b trs = Some res" by (rule match_loop_returns)
  have pass: "(\<exists>x. match_loop n gen t h b trs = Some (Inl x))
       \<or> (\<exists>b2. match_loop n gen t h b trs = Some (Inr (trs, h, b2)))
       \<or> (\<exists>m b2. 0 < remaining_qty (h t)
             \<and> remaining_qty (fill t m h t) \<le> remaining_qty (h t) - 1
             \<and> match_loop n gen t h b trs
                 = match_loop n gen t (fill t m h) b2
                     (trs @ [make_trade gen (length trs) t m h b]))"
  proof (cases rule: match_loop_cases [of n gen t h b trs])
    case (raised x)
    then show ?thesis by (intro disjI1 exI [of _ x])
  next
    case (stop b')
    from stop(1) show ?thesis by (intro disjI2 disjI1 exI [of _ b'])
  next
    case (go m b')
    from go(1,6,5) show ?thesis by (intro disjI2 exI [of _ m] exI [of _ b'] conjI)
  qed
  have retry: "\<forall>p b1. best_price sd b = Some p
               \<and> pop_next_active_at_price k sd p h b = Inr (None, b1) \<longrightarrow>
         get_best_resting (Suc k) sd h b = get_best_resting k sd h b1
         \<and> (side_ok sd b \<longrightarrow>
               side_ok sd b1 \<and> length (prices sd b1) < length (prices sd b))"
  proof (intro allI impI)
    fix p b1
    assume "best_price sd b = Some p \<and> pop_next_active_at_price k sd p h b = Inr (None, b1)"
    then have bp: "best_price sd b = Some p"
      and pop: "pop_next_active_at_price k sd p h b = Inr (None, b1)" by simp_all
    from bp pop have again: "get_best_resting (Suc k) sd h b = get_best_resting k sd h b1"
      by simp
    have shr: "side_ok sd b \<longrightarrow>
               side_ok sd b1 \<and> length (prices sd b1) < length (prices sd b)"
    proof
      assume "side_ok sd b"
      from this bp pop show "side_ok sd b1 \<and> length (prices sd b1) < length (prices sd b)"
        by (rule retry_shrinks)
    qed
    from again shr
    show "get_best_resting (Suc k) sd h b = get_best_resting k sd h b1
         \<and> (side_ok sd b \<longrightarrow>
               side_ok sd b1 \<and> length (prices sd b1) < length (prices sd b))"
      by (intro conjI)
  qed
  from ret lret pass retry show ?thesis by (intro conjI)
qed

theorem match_order_terminates_witness:
  "\<exists>h b res b1.
     run sample_gen [Submit 10 0, Submit 10 1, Cancel ''a''] (sample_heap, OrderBook_init ''AAPL'')
       = Some (h, b)
     \<and> match_order 10 sample_gen 2 h b = Some res
     \<and> side_ok SELL b \<and> best_price SELL b = Some 100
     \<and> pop_next_active_at_price 5 SELL 100 h b = Inr (None, b1)
     \<and> ask_prices b = [100, 200] \<and> ask_prices b1 = [200]
     \<and> get_best_resting 6 SELL h b = get_best_resting 5 SELL h b1
     \<and> side_ok SELL b1 \<and> length (prices SELL b1) < length (prices SELL b)"
proof -
  have e: "case run sample_gen [Submit 10 0, Submit 10 1, Cancel ''a'']
                  (sample_heap, OrderBook_init ''AAPL'') of
             None \<Rightarrow> False
           | Some (h, b) \<Rightarrow>
               ask_prices b = [100, 200] \<and> dom (asks b) = {200, 100}
               \<and> asks b 100 = Some [''a''] \<and> asks b 200 = Some [''b'']
               \<and> (case pop_next_active_at_price 5 SELL 100 h b of
                     Inl x \<Rightarrow> False
                   | Inr y \<Rightarrow> fst y = None \<and> ask_prices (snd y) = [200])"
    by (simp add: eval_defs)
  then obtain h b where r:
    "run sample_gen [Submit 10 0, Submit 10 1, Cancel ''a''] (sample_heap, OrderBook_init ''AAPL'')
       = Some (h, b)"
    by (auto split: option.splits)
  with e have s: "ask_prices b = [100, 200]" "dom (asks b) = {200, 100}"
    "asks b 100 = Some [''a'']" "asks b 200 = Some [''b'']"
    and c: "case pop_next_active_at_price 5 SELL 100 h b of
                     Inl x \<Rightarrow> False
                   | Inr y \<Rightarrow> fst y = None \<and> ask_prices (snd y) = [200]"
    by simp_all
  from s have ok: "side_ok SELL b"
    by (simp add: side_ok_def prices_def levels_def insert_commute)
  from s have bp: "best_price SELL b = Some 100" by (simp add: best_price_def best_ask_def)
  from c obtain b1 where pop: "pop_next_active_at_price 5 SELL 100 h b = Inr (None, b1)"
    and s1: "ask_prices b1 = [200]"
    by (cases "pop_next_active_at_price 5 SELL 100 h b") auto
  note t = match_order_terminates [of 10 sample_gen 2 h b "[]" SELL 5]
  from t obtain res where res: "match_order 10 sample_gen 2 h b = Some res" by blast
  from t have "\<forall>p b1. best_price SELL b = Some p
               \<and> pop_next_active_at_price 5 SELL p h b = Inr (None, b1) \<longrightarrow>
         get_best_resting (Suc 5) SELL h b = get_best_resting 5 SELL h b1
         \<and> (side_ok SELL b \<longrightarrow>
               side_ok SELL b1 \<and> length (prices SELL b1) < length (prices SELL b))"
    by (elim conjE)
  with bp pop ok have "get_best_resting (Suc 5) SELL h b = get_best_resting 5 SELL h b1"
    "side_ok SELL b1" "length (prices SELL b1) < length (prices SELL b)"
    by blast+
  then have "get_best_resting 6 SELL h b = get_best_resting 5 SELL h b1"
    "side_ok SELL b1" "length (prices SELL b1) < length (prices SELL b)"
    by (simp_all add: eval_nat_numeral)
  with r res ok bp pop s(1) s1 show ?thesis by (intro exI conjI)
qed

end
